theory Spec2Isabelle
  imports Main
begin

section \<open>Data model of \<open>src/lexer/parallel_lexer.cpp\<close>\<close>

text \<open>
  The translation unit includes \<open>lexer/parallel_lexer.hpp\<close> and \<open>lexer/fsa.hpp\<close>, which
  declare the constants \<open>START\<close>, \<open>REJECT\<close>, \<open>MAX_SYM\<close>, \<open>MIN_SIZE\<close> and
  \<open>GROW_FACTOR\<close>. Their values are not part of the translation unit, so every function
  below takes them as a parameter: nothing is assumed about them except where a theorem
  says so. \<open>StateIndex\<close> and \<open>size_t\<close> are unsigned machine integers. A table of
  \<open>K\<close> states occupies at least \<open>K\<close> squared cells of memory, so the tables the builder
  completes are far below their range, and the constructor is modelled over \<open>nat\<close>. For
  \<open>MergeTable::resize\<close> on its own, whose argument is not bounded by the memory in use,
  the arithmetic of a 64-bit \<open>size_t\<close> is modelled as well (\<open>resize_size_t\<close> below); the
  two models agree as long as no product wraps around.
\<close>

record constants =
  START :: nat
  REJECT :: nat
  MAX_SYM :: nat
  MIN_SIZE :: nat
  GROW_FACTOR :: nat

text \<open>
  A failed \<open>assert\<close> aborts the process (the assertions are taken as compiled in);
  indexing a \<open>std::vector\<close> or a heap array out of range is undefined behaviour. Both
  are results of the model.
\<close>

datatype error = AssertionFailed | OutOfBounds

type_synonym StateIndex = nat

record Transition =
  result_state :: StateIndex
  produces_lexeme :: bool

text \<open>\<open>Transition::Transition()\<close>: the defaulted transition.\<close>

definition Transition_default :: "constants \<Rightarrow> Transition" where
  "Transition_default c = \<lparr>result_state = REJECT c, produces_lexeme = False\<rparr>"

text \<open>\<open>struct ParallelState\<close> has the single field \<open>transitions\<close>, a vector.\<close>

type_synonym ParallelState = "Transition list"

text \<open>\<open>ParallelState::ParallelState(size_t states)\<close>\<close>

definition ParallelState_new :: "constants \<Rightarrow> nat \<Rightarrow> ParallelState" where
  "ParallelState_new c n = replicate n (Transition_default c)"

text \<open>
  \<open>ParallelState::merge\<close>: every slot of \<open>this\<close> is replaced by
  \<open>other.transitions[state.result_state]\<close>. The read has no guard, so a \<open>result_state\<close>
  that is not an index of \<open>other\<close> is an out-of-range read. \<open>other\<close> is a different object
  from \<open>this\<close> (at the only call site \<open>this\<close> is a fresh copy).
\<close>

fun ParallelState_merge :: "ParallelState \<Rightarrow> ParallelState \<Rightarrow> error + ParallelState" where
  "ParallelState_merge [] other = Inr []"
| "ParallelState_merge (state # rest) other =
     (if result_state state < length other
      then (case ParallelState_merge rest other of
              Inl e \<Rightarrow> Inl e
            | Inr rest' \<Rightarrow> Inr (other ! result_state state # rest'))
      else Inl OutOfBounds)"

text \<open>The composition that \<open>merge\<close> computes when every read is in range.\<close>

definition compose :: "ParallelState \<Rightarrow> ParallelState \<Rightarrow> ParallelState" where
  "compose self other = map (\<lambda>state. other ! result_state state) self"

definition in_range :: "ParallelState \<Rightarrow> nat \<Rightarrow> bool" where
  "in_range self n = list_all (\<lambda>state. result_state state < n) self"

subsection \<open>MergeTable\<close>

text \<open>
  \<open>merge_table\<close> is the heap array behind the \<open>unique_ptr\<close>; the null pointer of the
  default constructor is the empty array.
\<close>

record MergeTable =
  num_states :: nat
  capacity :: nat
  merge_table :: "Transition list"

definition MergeTable_new :: MergeTable where
  "MergeTable_new = \<lparr>num_states = 0, capacity = 0, merge_table = []\<rparr>"

text \<open>\<open>MergeTable::index\<close>, with its two assertions as written (\<open><=\<close>).\<close>

definition index :: "MergeTable \<Rightarrow> StateIndex \<Rightarrow> StateIndex \<Rightarrow> error + nat" where
  "index mt first second =
     (if \<not> first \<le> num_states mt then Inl AssertionFailed
      else if \<not> second \<le> num_states mt then Inl AssertionFailed
      else Inr (first + second * capacity mt))"

text \<open>\<open>operator()\<close> read, and \<open>operator()\<close> followed by an assignment to the reference.\<close>

definition mt_get :: "MergeTable \<Rightarrow> StateIndex \<Rightarrow> StateIndex \<Rightarrow> error + Transition" where
  "mt_get mt first second =
     (case index mt first second of
        Inl e \<Rightarrow> Inl e
      | Inr k \<Rightarrow> if k < length (merge_table mt) then Inr (merge_table mt ! k) else Inl OutOfBounds)"

definition mt_set :: "MergeTable \<Rightarrow> StateIndex \<Rightarrow> StateIndex \<Rightarrow> Transition \<Rightarrow> error + MergeTable" where
  "mt_set mt first second t =
     (case index mt first second of
        Inl e \<Rightarrow> Inl e
      | Inr k \<Rightarrow> if k < length (merge_table mt)
                then Inr (mt\<lparr>merge_table := (merge_table mt)[k := t]\<rparr>)
                else Inl OutOfBounds)"

text \<open>\<open>MergeTable::states\<close>\<close>

definition mt_states :: "MergeTable \<Rightarrow> nat" where
  "mt_states mt = num_states mt"

text \<open>
  The \<open>while\<close> loop of \<open>resize\<close>. It does not return when the capacity cannot grow
  (a growth factor below two, or a capacity of zero); that is the value \<open>None\<close>.
\<close>

partial_function (option) grow_capacity :: "nat \<Rightarrow> nat \<Rightarrow> nat \<Rightarrow> nat option" where
  "grow_capacity grow_factor new_capacity new_num_states =
     (if new_capacity < new_num_states
      then grow_capacity grow_factor (new_capacity * grow_factor) new_num_states
      else Some new_capacity)"

text \<open>One assignment \<open>new_ptr[first + second * new_capacity] = (*this)(first, second)\<close>.\<close>

definition copy_cell ::
  "MergeTable \<Rightarrow> nat \<Rightarrow> nat \<Rightarrow> nat \<Rightarrow> error + Transition list \<Rightarrow> error + Transition list" where
  "copy_cell mt new_capacity second first acc =
     (case acc of
        Inl e \<Rightarrow> Inl e
      | Inr new_ptr \<Rightarrow>
          (case mt_get mt first second of
             Inl e \<Rightarrow> Inl e
           | Inr t \<Rightarrow>
               if first + second * new_capacity < length new_ptr
               then Inr (new_ptr[first + second * new_capacity := t])
               else Inl OutOfBounds))"

text \<open>The two nested \<open>for\<close> loops of \<open>resize\<close>, \<open>second\<close> outside and \<open>first\<close> inside.\<close>

definition copy_cells :: "MergeTable \<Rightarrow> nat \<Rightarrow> error + Transition list \<Rightarrow> error + Transition list" where
  "copy_cells mt new_capacity acc =
     fold (\<lambda>second. fold (copy_cell mt new_capacity second) [0..<num_states mt])
       [0..<num_states mt] acc"

text \<open>
  \<open>MergeTable::resize\<close>. \<open>make_unique<Transition[]>(n)\<close> value-initialises the array, which
  runs the default constructor of every cell. The outer \<open>option\<close> is \<open>None\<close> when the
  \<open>while\<close> loop does not return. The sizes are unbounded here, as the constructor uses
  them; \<open>resize_size_t\<close> below is the same function with the products of \<open>size_t\<close>.
\<close>

definition resize :: "constants \<Rightarrow> MergeTable \<Rightarrow> nat \<Rightarrow> (error + MergeTable) option" where
  "resize c mt new_num_states =
     (if new_num_states \<le> capacity mt
      then Some (Inr (mt\<lparr>num_states := new_num_states\<rparr>))
      else
        (case grow_capacity (GROW_FACTOR c) (max (MIN_SIZE c) (capacity mt)) new_num_states of
           None \<Rightarrow> None
         | Some new_capacity \<Rightarrow>
             (case copy_cells mt new_capacity
                     (Inr (replicate (new_capacity * new_capacity) (Transition_default c))) of
                Inl e \<Rightarrow> Some (Inl e)
              | Inr new_ptr \<Rightarrow>
                  Some (Inr \<lparr>num_states = new_num_states, capacity = new_capacity,
                              merge_table = new_ptr\<rparr>))))"

subsection \<open>MergeTable with the arithmetic of \<open>size_t\<close>\<close>

text \<open>
  \<open>size_t\<close> is taken as 64 bits wide: the value of every sum and product of type
  \<open>size_t\<close> is its mathematical value modulo \<open>2 ^ 64\<close>.
\<close>

definition size_t :: "nat \<Rightarrow> nat" where
  "size_t n = n mod 2 ^ 64"

text \<open>The \<open>while\<close> loop of \<open>resize\<close>: \<open>new_capacity *= GROW_FACTOR\<close> wraps around.\<close>

partial_function (option) grow_capacity_size_t :: "nat \<Rightarrow> nat \<Rightarrow> nat \<Rightarrow> nat option" where
  "grow_capacity_size_t grow_factor new_capacity new_num_states =
     (if new_capacity < new_num_states
      then grow_capacity_size_t grow_factor (size_t (new_capacity * grow_factor)) new_num_states
      else Some new_capacity)"

text \<open>
  \<open>MergeTable::index\<close> and the read through \<open>operator()\<close>: the offset
  \<open>first + second * capacity\<close> is computed in \<open>size_t\<close>.
\<close>

definition index_size_t :: "MergeTable \<Rightarrow> StateIndex \<Rightarrow> StateIndex \<Rightarrow> error + nat" where
  "index_size_t mt first second =
     (if \<not> first \<le> num_states mt then Inl AssertionFailed
      else if \<not> second \<le> num_states mt then Inl AssertionFailed
      else Inr (size_t (first + size_t (second * capacity mt))))"

definition mt_get_size_t :: "MergeTable \<Rightarrow> StateIndex \<Rightarrow> StateIndex \<Rightarrow> error + Transition" where
  "mt_get_size_t mt first second =
     (case index_size_t mt first second of
        Inl e \<Rightarrow> Inl e
      | Inr k \<Rightarrow> if k < length (merge_table mt) then Inr (merge_table mt ! k) else Inl OutOfBounds)"

text \<open>
  One assignment \<open>new_ptr[first + second * new_capacity] = (*this)(first, second)\<close> and the
  two loops around it.
\<close>

definition copy_cell_size_t ::
  "MergeTable \<Rightarrow> nat \<Rightarrow> nat \<Rightarrow> nat \<Rightarrow> error + Transition list \<Rightarrow> error + Transition list" where
  "copy_cell_size_t mt new_capacity second first acc =
     (case acc of
        Inl e \<Rightarrow> Inl e
      | Inr new_ptr \<Rightarrow>
          (case mt_get_size_t mt first second of
             Inl e \<Rightarrow> Inl e
           | Inr t \<Rightarrow>
               if size_t (first + size_t (second * new_capacity)) < length new_ptr
               then Inr (new_ptr[size_t (first + size_t (second * new_capacity)) := t])
               else Inl OutOfBounds))"

definition copy_cells_size_t ::
  "MergeTable \<Rightarrow> nat \<Rightarrow> error + Transition list \<Rightarrow> error + Transition list" where
  "copy_cells_size_t mt new_capacity acc =
     fold (\<lambda>second. fold (copy_cell_size_t mt new_capacity second) [0..<num_states mt])
       [0..<num_states mt] acc"

text \<open>
  \<open>MergeTable::resize\<close>: the array has \<open>new_capacity * new_capacity\<close> cells, a product
  of type \<open>size_t\<close>.
\<close>

definition resize_size_t :: "constants \<Rightarrow> MergeTable \<Rightarrow> nat \<Rightarrow> (error + MergeTable) option" where
  "resize_size_t c mt new_num_states =
     (if new_num_states \<le> capacity mt
      then Some (Inr (mt\<lparr>num_states := new_num_states\<rparr>))
      else
        (case grow_capacity_size_t (GROW_FACTOR c) (max (MIN_SIZE c) (capacity mt))
                new_num_states of
           None \<Rightarrow> None
         | Some new_capacity \<Rightarrow>
             (case copy_cells_size_t mt new_capacity
                     (Inr (replicate (size_t (new_capacity * new_capacity))
                             (Transition_default c))) of
                Inl e \<Rightarrow> Some (Inl e)
              | Inr new_ptr \<Rightarrow>
                  Some (Inr \<lparr>num_states = new_num_states, capacity = new_capacity,
                              merge_table = new_ptr\<rparr>))))"

subsection \<open>The automaton\<close>

text \<open>
  \<open>FiniteStateAutomaton\<close> is declared in \<open>lexer/fsa.hpp\<close>. The constructor uses of it:
  \<open>num_states()\<close>, \<open>dfa[s].transitions\<close> (triples of an optional symbol, a destination and
  the \<open>produces_lexeme\<close> flag) and \<open>dfa[s].lexeme\<close> (a pointer to a lexeme, null when
  none is attached). The automaton is the input of the model.
\<close>

record 'l State =
  transitions :: "(nat option \<times> StateIndex \<times> bool) list"
  lexeme :: "'l option"

type_synonym 'l FiniteStateAutomaton = "'l State list"

definition dfa_num_states :: "'l FiniteStateAutomaton \<Rightarrow> nat" where
  "dfa_num_states dfa = length dfa"

subsection \<open>The constructor \<open>ParallelLexer::ParallelLexer\<close>\<close>

text \<open>
  The state of the constructor: its locals \<open>seen\<close> and \<open>states\<close>, and the four members of
  the object under construction (the member \<open>merge_table\<close> is the field
  \<open>lexer_merge_table\<close>, since \<open>merge_table\<close> names the array of \<open>MergeTable\<close>).
  \<open>seen\<close> is an \<open>unordered_map\<close> from parallel states to indices; it is kept as an
  association list in insertion order. Its key equality is \<open>operator==\<close>, which compares
  the two vectors element by element on both fields: equality of lists. The hash only
  places the keys.
\<close>

record 'l ParallelLexer =
  seen :: "(ParallelState \<times> StateIndex) list"
  states :: "ParallelState list"
  initial_states :: "Transition list"
  lexer_merge_table :: MergeTable
  identity_state_index :: StateIndex
  final_states :: "'l option list"

text \<open>
  Results of the constructor's steps: \<open>None\<close> when a loop does not return,
  \<open>Some (Inl e)\<close> when the step fails, \<open>Some (Inr x)\<close> when it returns \<open>x\<close>.
\<close>

type_synonym 'a result = "(error + 'a) option"

definition rbind :: "'a result \<Rightarrow> ('a \<Rightarrow> 'b result) \<Rightarrow> 'b result" where
  "rbind m f = (case m of None \<Rightarrow> None | Some (Inl e) \<Rightarrow> Some (Inl e) | Some (Inr x) \<Rightarrow> f x)"

lemma rbind_mono [partial_function_mono]:
  assumes mf: "mono_option B" and mg: "\<And>y. mono_option (\<lambda>f. C y f)"
  shows "mono_option (\<lambda>f. rbind (B f) (\<lambda>y. C y f))"
proof -
  have eq: "\<And>m g. rbind m g = Option.bind m (\<lambda>r. case r of Inl e \<Rightarrow> Some (Inl e) | Inr x \<Rightarrow> g x)"
    by (auto simp: rbind_def split: option.splits sum.splits)
  have "mono_option (\<lambda>f. Option.bind (B f) (\<lambda>r. case r of Inl e \<Rightarrow> Some (Inl e) | Inr x \<Rightarrow> C x f))"
    using mf
  proof (rule bind_mono)
    fix r
    show "mono_option (\<lambda>f. case r of Inl e \<Rightarrow> Some (Inl e) | Inr x \<Rightarrow> C x f)"
      by (cases r) (simp_all add: mg option.const_mono)
  qed
  then show ?thesis by (simp add: eq)
qed

text \<open>The \<open>enqueue\<close> lambda.\<close>

definition enqueue ::
  "constants \<Rightarrow> ParallelState \<Rightarrow> 'l ParallelLexer \<Rightarrow> (StateIndex \<times> 'l ParallelLexer) result" where
  "enqueue c ps b =
     (case map_of (seen b) ps of
        Some k \<Rightarrow> Some (Inr (k, b))
      | None \<Rightarrow>
          (let k = length (states b) in
           rbind (resize c (lexer_merge_table b) (k + 1))
             (\<lambda>mt. Some (Inr (k, b\<lparr>seen := seen b @ [(ps, k)],
                                     states := states b @ [ps],
                                     lexer_merge_table := mt\<rparr>)))))"

text \<open>
  The two assignments in the body of the seeding loop, for one transition of state
  \<open>src\<close>, after the assertion that the symbol is present.
\<close>

definition seed_transition ::
  "StateIndex \<Rightarrow> (nat option \<times> StateIndex \<times> bool) \<Rightarrow> error + ParallelState list
     \<Rightarrow> error + ParallelState list" where
  "seed_transition src tr acc =
     (case acc of
        Inl e \<Rightarrow> Inl e
      | Inr initial \<Rightarrow>
          (case tr of (symbol, dst, pl) \<Rightarrow>
             (case symbol of
                None \<Rightarrow> Inl AssertionFailed
              | Some v \<Rightarrow>
                  if v < length initial \<and> src < length (initial ! v)
                  then Inr (initial[v := (initial ! v)[src :=
                         (initial ! v ! src)\<lparr>result_state := dst, produces_lexeme := pl\<rparr>]])
                  else Inl OutOfBounds)))"

definition seed_initial_states ::
  "constants \<Rightarrow> 'l FiniteStateAutomaton \<Rightarrow> error + ParallelState list" where
  "seed_initial_states c dfa =
     fold (\<lambda>src. fold (seed_transition src) (transitions (dfa ! src)))
       [0..<dfa_num_states dfa]
       (Inr (replicate (MAX_SYM c + 1) (ParallelState_new c (dfa_num_states dfa))))"

text \<open>The loop that interns the initial state of every symbol, from \<open>symbol\<close> on.\<close>

fun enqueue_initial ::
  "constants \<Rightarrow> ParallelState list \<Rightarrow> nat \<Rightarrow> nat \<Rightarrow> 'l ParallelLexer \<Rightarrow> 'l ParallelLexer result" where
  "enqueue_initial c initial symbol 0 b = Some (Inr b)"
| "enqueue_initial c initial symbol (Suc n) b =
     (let state = initial ! symbol in
      if START c < length state \<and> symbol < length (initial_states b)
      then
        rbind (enqueue c state
                 (b\<lparr>initial_states := (initial_states b)[symbol :=
                      (initial_states b ! symbol)\<lparr>produces_lexeme :=
                         produces_lexeme (state ! START c)\<rparr>]\<rparr>))
          (\<lambda>(k, b'). enqueue_initial c initial (Suc symbol) n
                       (b'\<lparr>initial_states := (initial_states b')[symbol :=
                            (initial_states b' ! symbol)\<lparr>result_state := k\<rparr>]\<rparr>))
      else Some (Inl OutOfBounds))"

text \<open>The identity mapping of the second block.\<close>

definition identity :: "constants \<Rightarrow> nat \<Rightarrow> ParallelState" where
  "identity c n =
     fold (\<lambda>i ps. ps[i := (ps ! i)\<lparr>result_state := i\<rparr>]) [0..<n] (ParallelState_new c n)"

text \<open>The \<open>merge\<close> lambda.\<close>

definition merge :: "constants \<Rightarrow> StateIndex \<Rightarrow> StateIndex \<Rightarrow> 'l ParallelLexer \<Rightarrow> 'l ParallelLexer result" where
  "merge c i j b =
     rbind
       (if i = identity_state_index b then Some (Inr (j, b))
        else if j = identity_state_index b then Some (Inr (i, b))
        else if i < length (states b) \<and> j < length (states b)
        then (case ParallelState_merge (states b ! i) (states b ! j) of
                Inl e \<Rightarrow> Some (Inl e)
              | Inr ps \<Rightarrow> enqueue c ps b)
        else Some (Inl OutOfBounds))
       (\<lambda>(result, b').
          if result < length (states b') \<and> START c < length (states b' ! result)
          then (case mt_set (lexer_merge_table b') i j
                       \<lparr>result_state = result,
                        produces_lexeme = produces_lexeme (states b' ! result ! START c)\<rparr> of
                  Inl e \<Rightarrow> Some (Inl e)
                | Inr mt \<Rightarrow> Some (Inr (b'\<lparr>lexer_merge_table := mt\<rparr>)))
          else Some (Inl OutOfBounds))"

text \<open>
  The saturation loops. Both bounds are \<open>states.size()\<close>, read again at every test, and
  \<open>states\<close> grows inside the loops: neither loop has a bound fixed in advance. (The
  progress output and the unused copy \<open>first\<close> have no effect on the tables.)
\<close>

partial_function (option) merge_inner ::
  "constants \<Rightarrow> StateIndex \<Rightarrow> StateIndex \<Rightarrow> 'l ParallelLexer \<Rightarrow> 'l ParallelLexer result" where
  "merge_inner c i j b =
     (if j < length (states b)
      then rbind (merge c i j b) (\<lambda>b1. rbind (merge c j i b1) (\<lambda>b2. merge_inner c i (Suc j) b2))
      else Some (Inr b))"

partial_function (option) merge_outer ::
  "constants \<Rightarrow> StateIndex \<Rightarrow> 'l ParallelLexer \<Rightarrow> 'l ParallelLexer result" where
  "merge_outer c i b =
     (if i < length (states b)
      then rbind (merge_inner c i 0 b) (\<lambda>b1. merge_outer c (Suc i) b1)
      else Some (Inr b))"

text \<open>One assignment \<open>final_states[i] = dfa[ps.transitions[START].result_state].lexeme\<close>.\<close>

definition set_final_state ::
  "constants \<Rightarrow> 'l FiniteStateAutomaton \<Rightarrow> ParallelState \<times> StateIndex \<Rightarrow> error + 'l option list
     \<Rightarrow> error + 'l option list" where
  "set_final_state c dfa entry acc =
     (case acc of
        Inl e \<Rightarrow> Inl e
      | Inr fs \<Rightarrow>
          (case entry of (ps, i) \<Rightarrow>
             if START c < length ps \<and> result_state (ps ! START c) < dfa_num_states dfa
                \<and> i < length fs
             then Inr (fs[i := lexeme (dfa ! result_state (ps ! START c))])
             else Inl OutOfBounds))"

definition compute_final_states ::
  "constants \<Rightarrow> 'l FiniteStateAutomaton \<Rightarrow> 'l ParallelLexer \<Rightarrow> error + 'l option list" where
  "compute_final_states c dfa b =
     fold (set_final_state c dfa) (seen b) (Inr (replicate (length (seen b)) None))"

definition ParallelLexer_new :: "'l ParallelLexer" where
  "ParallelLexer_new =
     \<lparr>seen = [], states = [], initial_states = [], lexer_merge_table = MergeTable_new,
      identity_state_index = 0, final_states = []\<rparr>"

text \<open>
  The constructor, from the automaton that \<open>build_lexer_dfa\<close> returned. The value of the
  member \<open>identity_state_index\<close> before its assignment is not read.
\<close>

definition ParallelLexer_ctor ::
  "constants \<Rightarrow> 'l FiniteStateAutomaton \<Rightarrow> 'l ParallelLexer result" where
  "ParallelLexer_ctor c dfa =
     (case seed_initial_states c dfa of
        Inl e \<Rightarrow> Some (Inl e)
      | Inr initial \<Rightarrow>
          rbind (enqueue_initial c initial 0 (length initial)
                   (ParallelLexer_new\<lparr>initial_states :=
                      replicate (length initial) (Transition_default c)\<rparr>))
            (\<lambda>b1. rbind (enqueue c (identity c (dfa_num_states dfa)) b1)
               (\<lambda>(k, b2). rbind (merge_outer c 0 (b2\<lparr>identity_state_index := k\<rparr>))
                  (\<lambda>b3. case compute_final_states c dfa b3 of
                           Inl e \<Rightarrow> Some (Inl e)
                         | Inr fs \<Rightarrow> Some (Inr (b3\<lparr>final_states := fs\<rparr>))))))"

declare grow_capacity.simps [code]
declare grow_capacity_size_t.simps [code]
declare merge_inner.simps [code]
declare merge_outer.simps [code]

section \<open>ParallelState::merge\<close>

lemma merge_in_range:
  "in_range self (length other) \<Longrightarrow> ParallelState_merge self other = Inr (compose self other)"
  by (induction self) (simp_all add: in_range_def compose_def)

lemma merge_out_of_range:
  "\<not> in_range self (length other) \<Longrightarrow> ParallelState_merge self other = Inl OutOfBounds"
proof (induction self)
  case Nil
  then show ?case by (simp add: in_range_def)
next
  case (Cons state rest)
  show ?case
  proof (cases "result_state state < length other")
    case True
    with Cons.prems have "\<not> in_range rest (length other)" by (simp add: in_range_def)
    with Cons.IH True show ?thesis by simp
  next
    case False
    then show ?thesis by simp
  qed
qed

lemma merge_Inr_iff:
  "ParallelState_merge self other = Inr r
     \<longleftrightarrow> in_range self (length other) \<and> r = compose self other"
  by (cases "in_range self (length other)") (auto simp: merge_in_range merge_out_of_range)

lemma length_compose [simp]: "length (compose self other) = length self"
  by (simp add: compose_def)

lemma nth_compose: "s < length self \<Longrightarrow> compose self other ! s = other ! result_state (self ! s)"
  by (simp add: compose_def)

lemma in_range_nth: "in_range self n \<Longrightarrow> s < length self \<Longrightarrow> result_state (self ! s) < n"
  by (simp add: in_range_def list_all_length)

text \<open>
  Claim C3, as the code has it. \<open>merge\<close> has no branch on \<open>REJECT\<close>: a slot whose
  \<open>result_state\<close> is \<open>REJECT\<close> is overwritten by \<open>other[REJECT]\<close> like any other slot.
  When every read of \<open>merge\<close> is in range and \<open>other[REJECT]\<close> is the defaulted
  transition \<open>(REJECT, false)\<close>, the merge is defined and the slot holds
  \<open>(REJECT, false)\<close> afterwards.
\<close>

theorem merge_reject_absorbing:
  assumes "length self = length other"
    and "in_range self (length other)"
    and "s < length self"
    and "result_state (self ! s) = REJECT c"
    and "other ! REJECT c = Transition_default c"
  shows "\<exists>r. ParallelState_merge self other = Inr r \<and> length r = length self
           \<and> r ! s = Transition_default c"
  using assms by (simp add: merge_in_range nth_compose)

definition c_small :: constants where
  "c_small = \<lparr>START = 0, REJECT = 1, MAX_SYM = 1, MIN_SIZE = 2, GROW_FACTOR = 2\<rparr>"

theorem merge_reject_absorbing_witness:
  "length (ParallelState_new c_small 2) = length (ParallelState_new c_small 2)
   \<and> in_range (ParallelState_new c_small 2) (length (ParallelState_new c_small 2))
   \<and> 0 < length (ParallelState_new c_small 2)
   \<and> result_state (ParallelState_new c_small 2 ! 0) = REJECT c_small
   \<and> ParallelState_new c_small 2 ! REJECT c_small = Transition_default c_small
   \<and> (\<exists>r. ParallelState_merge (ParallelState_new c_small 2) (ParallelState_new c_small 2)
            = Inr r
          \<and> length r = length (ParallelState_new c_small 2)
          \<and> r ! 0 = Transition_default c_small)"
proof -
  let ?ps = "ParallelState_new c_small 2"
  have h: "length ?ps = length ?ps" "in_range ?ps (length ?ps)" "0 < length ?ps"
    "result_state (?ps ! 0) = REJECT c_small" "?ps ! REJECT c_small = Transition_default c_small"
    by (simp_all add: ParallelState_new_def numeral_2_eq_2 in_range_def c_small_def
        Transition_default_def)
  from merge_reject_absorbing [OF h] h show ?thesis by blast
qed

text \<open>
  Claim C3 as stated fails. With \<open>REJECT\<close> outside the width (one automaton state,
  \<open>REJECT = 1\<close>) the all-default state merged with itself reads \<open>other[1]\<close> out of
  range; with \<open>REJECT\<close> inside the width (two states) the slot is overwritten by
  \<open>other[REJECT]\<close>, here \<open>(0, true)\<close>.
\<close>

theorem merge_reject_counterexample:
  "length (ParallelState_new c_small 1) = length (ParallelState_new c_small 1)
   \<and> result_state (ParallelState_new c_small 1 ! 0) = REJECT c_small
   \<and> ParallelState_merge (ParallelState_new c_small 1) (ParallelState_new c_small 1)
       = Inl OutOfBounds
   \<and> result_state (ParallelState_new c_small 2 ! 0) = REJECT c_small
   \<and> ParallelState_merge (ParallelState_new c_small 2)
        [\<lparr>result_state = 0, produces_lexeme = False\<rparr>,
         \<lparr>result_state = 0, produces_lexeme = True\<rparr>]
       = Inr [\<lparr>result_state = 0, produces_lexeme = True\<rparr>,
              \<lparr>result_state = 0, produces_lexeme = True\<rparr>]"
  by (simp add: ParallelState_new_def c_small_def Transition_default_def numeral_2_eq_2)

section \<open>MergeTable\<close>

text \<open>The class invariant of \<open>MergeTable\<close>: the array holds \<open>capacity\<close> squared cells.\<close>

definition mt_wf :: "MergeTable \<Rightarrow> bool" where
  "mt_wf mt \<longleftrightarrow> num_states mt \<le> capacity mt
     \<and> length (merge_table mt) = capacity mt * capacity mt"

lemma offset_lt: "first < cap \<Longrightarrow> second < cap \<Longrightarrow> first + second * cap < cap * (cap::nat)"
proof -
  assume a: "first < cap" "second < cap"
  then have "Suc second * cap \<le> cap * cap" by (metis Suc_leI mult_le_mono1)
  with a show ?thesis by simp
qed

lemma offset_row:
  assumes "f < nc" "n \<le> nc"
  shows "(s' * nc \<le> f + s * nc \<and> f + s * nc < s' * nc + n) \<longleftrightarrow> (s = s' \<and> f < (n::nat))"
proof (cases "s = s'")
  case True then show ?thesis by auto
next
  case False
  then consider "s < s'" | "s' < s" by linarith
  then show ?thesis
  proof cases
    case 1
    then have "Suc s * nc \<le> s' * nc" by (metis Suc_leI mult_le_mono1)
    with assms have "f + s * nc < s' * nc" by simp
    with False show ?thesis by simp
  next
    case 2
    then have "Suc s' * nc \<le> s * nc" by (metis Suc_leI mult_le_mono1)
    with assms have "s' * nc + n \<le> f + s * nc" by simp
    with False show ?thesis by simp
  qed
qed

lemma offset_inj:
  assumes "f < cap" "f' < cap"
  shows "f + s * cap = f' + s' * (cap::nat) \<longleftrightarrow> f = f' \<and> s = s'"
proof
  assume eq: "f + s * cap = f' + s' * cap"
  have "(f + s * cap) div cap = s" "(f' + s' * cap) div cap = s'"
    using assms by simp_all
  with eq have "s = s'" by simp
  with eq show "f = f' \<and> s = s'" by simp
qed simp

lemma index_ok:
  "first \<le> num_states mt \<Longrightarrow> second \<le> num_states mt
     \<Longrightarrow> index mt first second = Inr (first + second * capacity mt)"
  by (simp add: index_def)

lemma mt_get_wf:
  "mt_wf mt \<Longrightarrow> first < num_states mt \<Longrightarrow> second < num_states mt
     \<Longrightarrow> mt_get mt first second = Inr (merge_table mt ! (first + second * capacity mt))"
  using offset_lt [of first "capacity mt" second]
  by (simp add: mt_get_def index_ok mt_wf_def)

lemma mt_set_wf:
  "mt_wf mt \<Longrightarrow> first < num_states mt \<Longrightarrow> second < num_states mt
     \<Longrightarrow> mt_set mt first second t
          = Inr (mt\<lparr>merge_table := (merge_table mt)[first + second * capacity mt := t]\<rparr>)"
  using offset_lt [of first "capacity mt" second]
  by (simp add: mt_set_def index_ok mt_wf_def)

lemma mt_get_set:
  assumes "mt_wf mt" "first < num_states mt" "second < num_states mt"
    and "mt_set mt first second t = Inr mt'"
  shows "mt_wf mt' \<and> num_states mt' = num_states mt \<and> capacity mt' = capacity mt
         \<and> mt_get mt' first second = Inr t
         \<and> (\<forall>f s. f < num_states mt \<longrightarrow> s < num_states mt \<longrightarrow> (f, s) \<noteq> (first, second)
               \<longrightarrow> mt_get mt' f s = mt_get mt f s)"
proof -
  from assms have mt': "mt' = mt\<lparr>merge_table := (merge_table mt)[first + second * capacity mt := t]\<rparr>"
    by (simp add: mt_set_wf)
  have sel: "num_states mt' = num_states mt" "capacity mt' = capacity mt"
    "merge_table mt' = (merge_table mt)[first + second * capacity mt := t]"
    by (simp_all add: mt')
  have wf': "mt_wf mt'" using assms(1) by (simp add: sel mt_wf_def)
  have lt: "first + second * capacity mt < length (merge_table mt)"
    using assms offset_lt [of first "capacity mt" second] by (simp add: mt_wf_def)
  have g: "mt_get mt' first second = Inr t"
    using mt_get_wf [OF wf', of first second] assms(2,3) lt by (simp add: sel)
  have other: "mt_get mt' f s = mt_get mt f s"
    if "f < num_states mt" "s < num_states mt" "(f, s) \<noteq> (first, second)" for f s
  proof -
    have "f + s * capacity mt \<noteq> first + second * capacity mt"
      using offset_inj [of f "capacity mt" first s second] that assms(1,2)
      by (auto simp: mt_wf_def)
    then show ?thesis
      using mt_get_wf [OF wf', of f s] mt_get_wf [OF assms(1), of f s] that by (simp add: sel)
  qed
  show ?thesis using wf' g other by (simp add: sel)
qed

subsection \<open>The capacity loop of \<open>resize\<close>\<close>

lemma grow_capacity_SomeD:
  assumes ret: "grow_capacity gf0 cap0 n0 = Some r0"
  shows "n0 \<le> r0 \<and> (\<exists>k. r0 = cap0 * gf0 ^ k \<and> (\<forall>k'<k. cap0 * gf0 ^ k' < n0))"
proof (rule grow_capacity.raw_induct
    [where P = "\<lambda>gf cap n r. n \<le> r \<and> (\<exists>k. r = cap * gf ^ k \<and> (\<forall>k'<k. cap * gf ^ k' < n))",
      OF _ ret])
  fix f :: "nat \<Rightarrow> nat \<Rightarrow> nat \<Rightarrow> nat option" and gf cap n r
  assume IH: "\<And>gf cap n r. f gf cap n = Some r
     \<Longrightarrow> n \<le> r \<and> (\<exists>k. r = cap * gf ^ k \<and> (\<forall>k'<k. cap * gf ^ k' < n))"
    and body: "(if cap < n then f gf (cap * gf) n else Some cap) = Some r"
  show "n \<le> r \<and> (\<exists>k. r = cap * gf ^ k \<and> (\<forall>k'<k. cap * gf ^ k' < n))"
  proof (cases "cap < n")
    case True
    with body have "f gf (cap * gf) n = Some r" by simp
    from IH [OF this] obtain k where le: "n \<le> r" and r: "r = cap * gf * gf ^ k"
      and small: "\<forall>k'<k. cap * gf * gf ^ k' < n" by blast
    have "\<forall>k'<Suc k. cap * gf ^ k' < n"
    proof (intro allI impI)
      fix k' assume "k' < Suc k"
      then show "cap * gf ^ k' < n"
        using True small by (cases k') (simp_all add: mult.assoc)
    qed
    moreover have "r = cap * gf ^ Suc k" using r by (simp add: mult.assoc)
    ultimately show ?thesis using le by blast
  next
    case False
    with body have "r = cap" by simp
    with False show ?thesis by (intro conjI exI [of _ 0]) simp_all
  qed
qed

lemma grow_capacity_terminates:
  assumes "2 \<le> gf" "0 < cap"
  shows "\<exists>r. grow_capacity gf cap n = Some r"
  using assms(2)
proof (induction "n - cap" arbitrary: cap rule: less_induct)
  case less
  show ?case
  proof (cases "cap < n")
    case True
    have "cap * 2 \<le> cap * gf" using assms(1) by (rule mult_le_mono2)
    then have "cap < cap * gf" using less.prems by simp
    then have "n - cap * gf < n - cap" "0 < cap * gf" using True by linarith+
    from less.hyps [OF this] obtain r where "grow_capacity gf (cap * gf) n = Some r" by blast
    then show ?thesis using True by (subst grow_capacity.simps) simp
  next
    case False
    then show ?thesis by (subst grow_capacity.simps) simp
  qed
qed

subsection \<open>The copy loops of \<open>resize\<close>\<close>

lemma copy_cell_Inr:
  assumes "mt_wf mt" "first < num_states mt" "second < num_states mt"
    and "first + second * nc < length buf"
  shows "copy_cell mt nc second first (Inr buf)
         = Inr (buf[first + second * nc := merge_table mt ! (first + second * capacity mt)])"
  using assms by (simp add: copy_cell_def mt_get_wf)

lemma copy_row:
  assumes wf: "mt_wf mt" and s: "s < num_states mt" and nc: "num_states mt \<le> nc"
    and len: "length buf = nc * nc"
  shows "m \<le> num_states mt \<Longrightarrow>
         \<exists>buf'. fold (copy_cell mt nc s) [0..<m] (Inr buf) = Inr buf'
           \<and> length buf' = length buf
           \<and> (\<forall>k<length buf. buf' ! k =
                 (if s * nc \<le> k \<and> k < s * nc + m
                  then merge_table mt ! ((k - s * nc) + s * capacity mt)
                  else buf ! k))"
proof (induction m)
  case 0
  then show ?case by auto
next
  case (Suc m)
  then obtain buf' where f: "fold (copy_cell mt nc s) [0..<m] (Inr buf) = Inr buf'"
    and l: "length buf' = length buf"
    and v: "\<forall>k<length buf. buf' ! k =
                 (if s * nc \<le> k \<and> k < s * nc + m
                  then merge_table mt ! ((k - s * nc) + s * capacity mt)
                  else buf ! k)"
    by auto
  have m: "m < num_states mt" using Suc.prems by simp
  have lt: "m + s * nc < length buf'"
    using offset_lt [of m nc s] m s nc l len by simp
  let ?buf = "buf'[m + s * nc := merge_table mt ! (m + s * capacity mt)]"
  have step: "fold (copy_cell mt nc s) [0..<Suc m] (Inr buf) = Inr ?buf"
    using f copy_cell_Inr [OF wf m s lt] by simp
  have "\<forall>k<length buf. ?buf ! k =
                 (if s * nc \<le> k \<and> k < s * nc + Suc m
                  then merge_table mt ! ((k - s * nc) + s * capacity mt)
                  else buf ! k)"
  proof (intro allI impI)
    fix k assume k: "k < length buf"
    show "?buf ! k = (if s * nc \<le> k \<and> k < s * nc + Suc m
                  then merge_table mt ! ((k - s * nc) + s * capacity mt)
                  else buf ! k)"
    proof (cases "k = m + s * nc")
      case True
      then show ?thesis using lt by simp
    next
      case False
      then have "?buf ! k = buf' ! k" by simp
      moreover have "(s * nc \<le> k \<and> k < s * nc + Suc m) \<longleftrightarrow> (s * nc \<le> k \<and> k < s * nc + m)"
        using False by auto
      ultimately show ?thesis using v k by simp
    qed
  qed
  with step l show ?case by simp
qed

lemma copy_rows:
  assumes wf: "mt_wf mt" and nc: "num_states mt \<le> nc" and len: "length buf = nc * nc"
  shows "m \<le> num_states mt \<Longrightarrow>
         \<exists>buf'. fold (\<lambda>second. fold (copy_cell mt nc second) [0..<num_states mt])
                   [0..<m] (Inr buf) = Inr buf'
           \<and> length buf' = length buf
           \<and> (\<forall>f<nc. \<forall>s<nc. buf' ! (f + s * nc) =
                 (if s < m \<and> f < num_states mt
                  then merge_table mt ! (f + s * capacity mt)
                  else buf ! (f + s * nc)))"
proof (induction m)
  case 0
  then show ?case by simp
next
  case (Suc m)
  then obtain buf' where f: "fold (\<lambda>second. fold (copy_cell mt nc second) [0..<num_states mt])
                   [0..<m] (Inr buf) = Inr buf'"
    and l: "length buf' = length buf"
    and v: "\<forall>f<nc. \<forall>s<nc. buf' ! (f + s * nc) =
                 (if s < m \<and> f < num_states mt
                  then merge_table mt ! (f + s * capacity mt)
                  else buf ! (f + s * nc))"
    by auto
  have m: "m < num_states mt" using Suc.prems by simp
  from copy_row [OF wf m nc, of buf' "num_states mt"] l len
  obtain buf'' where f2: "fold (copy_cell mt nc m) [0..<num_states mt] (Inr buf') = Inr buf''"
    and l2: "length buf'' = length buf'"
    and v2: "\<forall>k<length buf'. buf'' ! k =
                 (if m * nc \<le> k \<and> k < m * nc + num_states mt
                  then merge_table mt ! ((k - m * nc) + m * capacity mt)
                  else buf' ! k)"
    by auto
  have step: "fold (\<lambda>second. fold (copy_cell mt nc second) [0..<num_states mt])
                   [0..<Suc m] (Inr buf) = Inr buf''"
    using f f2 by simp
  have "\<forall>f<nc. \<forall>s<nc. buf'' ! (f + s * nc) =
                 (if s < Suc m \<and> f < num_states mt
                  then merge_table mt ! (f + s * capacity mt)
                  else buf ! (f + s * nc))"
  proof (intro allI impI)
    fix f s assume fs: "f < nc" "s < nc"
    then have k: "f + s * nc < length buf'" using offset_lt [of f nc s] l len by simp
    have row: "(m * nc \<le> f + s * nc \<and> f + s * nc < m * nc + num_states mt)
                 \<longleftrightarrow> (s = m \<and> f < num_states mt)"
      using offset_row [OF fs(1) nc] .
    from v2 k have "buf'' ! (f + s * nc) =
                 (if m * nc \<le> f + s * nc \<and> f + s * nc < m * nc + num_states mt
                  then merge_table mt ! ((f + s * nc - m * nc) + m * capacity mt)
                  else buf' ! (f + s * nc))"
      by blast
    then have new: "buf'' ! (f + s * nc) =
                 (if s = m \<and> f < num_states mt
                  then merge_table mt ! ((f + s * nc - m * nc) + m * capacity mt)
                  else buf' ! (f + s * nc))"
      by (simp only: row)
    show "buf'' ! (f + s * nc) =
                 (if s < Suc m \<and> f < num_states mt
                  then merge_table mt ! (f + s * capacity mt)
                  else buf ! (f + s * nc))"
    proof (cases "s = m \<and> f < num_states mt")
      case True
      then show ?thesis using new by simp
    next
      case False
      have "buf'' ! (f + s * nc) = buf' ! (f + s * nc)"
        using new by (simp only: False if_False)
      moreover have "(s < Suc m \<and> f < num_states mt) \<longleftrightarrow> (s < m \<and> f < num_states mt)"
        using False by auto
      ultimately show ?thesis using v fs by simp
    qed
  qed
  with step l l2 show ?case by simp
qed

lemma copy_cells_Inr:
  assumes wf: "mt_wf mt" and nc: "num_states mt \<le> nc" and len: "length buf = nc * nc"
  shows "\<exists>buf'. copy_cells mt nc (Inr buf) = Inr buf'
           \<and> length buf' = nc * nc
           \<and> (\<forall>f<nc. \<forall>s<nc. buf' ! (f + s * nc) =
                 (if f < num_states mt \<and> s < num_states mt
                  then merge_table mt ! (f + s * capacity mt)
                  else buf ! (f + s * nc)))"
  using copy_rows [OF wf nc len, of "num_states mt"] len
  by (auto simp: copy_cells_def)

subsection \<open>\<open>resize\<close>\<close>

lemma resize_small:
  "new_K \<le> capacity mt \<Longrightarrow> resize c mt new_K = Some (Inr (mt\<lparr>num_states := new_K\<rparr>))"
  by (simp add: resize_def)

lemma resize_grow:
  assumes wf: "mt_wf mt" and big: "capacity mt < new_K"
    and g: "grow_capacity (GROW_FACTOR c) (max (MIN_SIZE c) (capacity mt)) new_K = Some nc"
  shows "\<exists>buf. resize c mt new_K
               = Some (Inr \<lparr>num_states = new_K, capacity = nc, merge_table = buf\<rparr>)
           \<and> length buf = nc * nc
           \<and> (\<forall>f<nc. \<forall>s<nc. buf ! (f + s * nc) =
                 (if f < num_states mt \<and> s < num_states mt
                  then merge_table mt ! (f + s * capacity mt)
                  else Transition_default c))"
proof -
  have le: "new_K \<le> nc" using grow_capacity_SomeD [OF g] by simp
  with big wf have n: "num_states mt \<le> nc" by (simp add: mt_wf_def)
  let ?buf = "replicate (nc * nc) (Transition_default c)"
  from copy_cells_Inr [OF wf n, of ?buf]
  obtain buf' where c: "copy_cells mt nc (Inr ?buf) = Inr buf'"
    and l: "length buf' = nc * nc"
    and v: "\<forall>f<nc. \<forall>s<nc. buf' ! (f + s * nc) =
                 (if f < num_states mt \<and> s < num_states mt
                  then merge_table mt ! (f + s * capacity mt)
                  else ?buf ! (f + s * nc))"
    by auto
  have "\<forall>f<nc. \<forall>s<nc. buf' ! (f + s * nc) =
                 (if f < num_states mt \<and> s < num_states mt
                  then merge_table mt ! (f + s * capacity mt)
                  else Transition_default c)"
  proof (intro allI impI)
    fix f s assume fs: "f < nc" "s < nc"
    then have "?buf ! (f + s * nc) = Transition_default c"
      using offset_lt [of f nc s] by simp
    with v fs show "buf' ! (f + s * nc) =
                 (if f < num_states mt \<and> s < num_states mt
                  then merge_table mt ! (f + s * capacity mt)
                  else Transition_default c)"
      by simp
  qed
  moreover have "resize c mt new_K
               = Some (Inr \<lparr>num_states = new_K, capacity = nc, merge_table = buf'\<rparr>)"
    using big g c by (simp add: resize_def)
  ultimately show ?thesis using l by blast
qed

text \<open>What a returning \<open>resize\<close> leaves behind, whatever the constants are.\<close>

lemma resize_Inr:
  assumes wf: "mt_wf mt" and r: "resize c mt new_K = Some (Inr mt')"
  shows "mt_wf mt' \<and> num_states mt' = new_K
         \<and> (\<forall>f s. f < num_states mt \<longrightarrow> s < num_states mt \<longrightarrow> f < new_K \<longrightarrow> s < new_K
               \<longrightarrow> mt_get mt' f s = mt_get mt f s)"
proof (cases "new_K \<le> capacity mt")
  case True
  with r have mt': "mt' = mt\<lparr>num_states := new_K\<rparr>" by (simp add: resize_small)
  have wf': "mt_wf mt'" using wf True by (simp add: mt' mt_wf_def)
  have "mt_get mt' f s = mt_get mt f s"
    if "f < num_states mt" "s < num_states mt" "f < new_K" "s < new_K" for f s
    using mt_get_wf [OF wf, of f s] mt_get_wf [OF wf', of f s] that by (simp add: mt')
  with wf' show ?thesis by (simp add: mt')
next
  case False
  then have big: "capacity mt < new_K" by simp
  from r big obtain nc where
    g: "grow_capacity (GROW_FACTOR c) (max (MIN_SIZE c) (capacity mt)) new_K = Some nc"
    by (auto simp: resize_def split: option.splits)
  from resize_grow [OF wf big g] r obtain buf where
    mt': "mt' = \<lparr>num_states = new_K, capacity = nc, merge_table = buf\<rparr>"
    and l: "length buf = nc * nc"
    and v: "\<forall>f<nc. \<forall>s<nc. buf ! (f + s * nc) =
                 (if f < num_states mt \<and> s < num_states mt
                  then merge_table mt ! (f + s * capacity mt)
                  else Transition_default c)"
    by auto
  have le: "new_K \<le> nc" using grow_capacity_SomeD [OF g] by simp
  have wf': "mt_wf mt'" using le l by (simp add: mt' mt_wf_def)
  have "mt_get mt' f s = mt_get mt f s"
    if "f < num_states mt" "s < num_states mt" "f < new_K" "s < new_K" for f s
  proof -
    have "f < nc" "s < nc" using that le by simp_all
    with v that have "buf ! (f + s * nc) = merge_table mt ! (f + s * capacity mt)" by simp
    then show ?thesis
      using mt_get_wf [OF wf, of f s] mt_get_wf [OF wf', of f s] that by (simp add: mt')
  qed
  with wf' show ?thesis by (simp add: mt')
qed

text \<open>The growing branch over unbounded sizes.\<close>

lemma resize_unbounded:
  assumes wf: "mt_wf mt" and gf: "2 \<le> GROW_FACTOR c" and ms: "0 < MIN_SIZE c"
    and big: "capacity mt < new_K"
  shows "\<exists>k mt'. resize c mt new_K = Some (Inr mt')
               \<and> num_states mt' = new_K
               \<and> capacity mt' = max (MIN_SIZE c) (capacity mt) * GROW_FACTOR c ^ k
               \<and> new_K \<le> capacity mt'
               \<and> (\<forall>k'<k. max (MIN_SIZE c) (capacity mt) * GROW_FACTOR c ^ k' < new_K)
               \<and> length (merge_table mt') = capacity mt' * capacity mt'
               \<and> (\<forall>first<capacity mt'. \<forall>second<capacity mt'.
                     merge_table mt' ! (first + second * capacity mt') =
                       (if first < num_states mt \<and> second < num_states mt
                        then merge_table mt ! (first + second * capacity mt)
                        else Transition_default c))
               \<and> (\<forall>first<num_states mt. \<forall>second<num_states mt.
                     mt_get mt' first second = mt_get mt first second)
               \<and> (\<forall>first<new_K. \<forall>second<new_K.
                     \<not> (first < num_states mt \<and> second < num_states mt)
                     \<longrightarrow> mt_get mt' first second = Inr (Transition_default c))"
proof -
  have "0 < max (MIN_SIZE c) (capacity mt)" using ms by simp
  from grow_capacity_terminates [OF gf this, of new_K] obtain nc where
    g: "grow_capacity (GROW_FACTOR c) (max (MIN_SIZE c) (capacity mt)) new_K = Some nc"
    by blast
  from grow_capacity_SomeD [OF g] obtain k where le: "new_K \<le> nc"
    and nc: "nc = max (MIN_SIZE c) (capacity mt) * GROW_FACTOR c ^ k"
    and least: "\<forall>k'<k. max (MIN_SIZE c) (capacity mt) * GROW_FACTOR c ^ k' < new_K"
    by blast
  from resize_grow [OF wf big g] obtain buf where
    r: "resize c mt new_K = Some (Inr \<lparr>num_states = new_K, capacity = nc, merge_table = buf\<rparr>)"
    and l: "length buf = nc * nc"
    and v: "\<forall>f<nc. \<forall>s<nc. buf ! (f + s * nc) =
                 (if f < num_states mt \<and> s < num_states mt
                  then merge_table mt ! (f + s * capacity mt)
                  else Transition_default c)"
    by blast
  let ?mt' = "\<lparr>num_states = new_K, capacity = nc, merge_table = buf\<rparr>"
  have wf': "mt_wf ?mt'" using le l by (simp add: mt_wf_def)
  have old_lt: "num_states mt < new_K" using wf big by (simp add: mt_wf_def)
  have kept: "\<forall>first<num_states mt. \<forall>second<num_states mt.
                     mt_get ?mt' first second = mt_get mt first second"
    using resize_Inr [OF wf r] old_lt by simp
  have fresh: "\<forall>first<new_K. \<forall>second<new_K.
                     \<not> (first < num_states mt \<and> second < num_states mt)
                     \<longrightarrow> mt_get ?mt' first second = Inr (Transition_default c)"
  proof (intro allI impI)
    fix first second
    assume a: "first < new_K" "second < new_K"
      "\<not> (first < num_states mt \<and> second < num_states mt)"
    then have "first < nc" "second < nc" using le by simp_all
    with v have "buf ! (first + second * nc) =
                 (if first < num_states mt \<and> second < num_states mt
                  then merge_table mt ! (first + second * capacity mt)
                  else Transition_default c)"
      by blast
    then have "buf ! (first + second * nc) = Transition_default c"
      by (simp only: a(3) if_False)
    then show "mt_get ?mt' first second = Inr (Transition_default c)"
      using mt_get_wf [OF wf', of first second] a by simp
  qed
  show ?thesis
    apply (rule exI [of _ k])
    apply (rule exI [of _ ?mt'])
    using r nc le least l v kept fresh
    apply simp
    done
qed

subsection \<open>\<open>resize\<close> with the arithmetic of \<open>size_t\<close>\<close>

text \<open>
  A sum or product below \<open>2 ^ 64\<close> does not wrap. While the grown capacity stays below
  \<open>2 ^ 32\<close> its square and every offset into the array are below \<open>2 ^ 64\<close>, and
  \<open>resize_size_t\<close> computes what \<open>resize\<close> computes.
\<close>

lemma size_t_id: "n < 2 ^ 64 \<Longrightarrow> size_t n = n"
  by (simp add: size_t_def)

lemma square_fits:
  assumes "cap < (2::nat) ^ 32"
  shows "cap * cap < 2 ^ 64"
proof -
  have "cap * cap \<le> cap * 2 ^ 32" using assms by (intro mult_le_mono2) simp
  also have "\<dots> < 2 ^ 32 * 2 ^ 32" using assms by simp
  also have "\<dots> = (2::nat) ^ 64" by (simp flip: power_add)
  finally show ?thesis .
qed

lemma offset_size_t:
  assumes "first < cap" "second < cap" "cap < 2 ^ 32"
  shows "size_t (first + size_t (second * cap)) = first + second * cap"
proof -
  have lt: "first + second * cap < cap * cap" using assms(1,2) by (rule offset_lt)
  also have "\<dots> < 2 ^ 64" using assms(3) by (rule square_fits)
  finally have a: "first + second * cap < 2 ^ 64" .
  then have "second * cap < 2 ^ 64" by simp
  then show ?thesis using a by (simp add: size_t_id)
qed

lemma mt_get_size_t_wf:
  assumes "mt_wf mt" "capacity mt < 2 ^ 32" "first < num_states mt" "second < num_states mt"
  shows "mt_get_size_t mt first second = mt_get mt first second"
proof -
  have "first < capacity mt" "second < capacity mt" using assms by (simp_all add: mt_wf_def)
  from offset_size_t [OF this assms(2)] show ?thesis
    using assms(3,4) by (simp add: mt_get_size_t_def index_size_t_def mt_get_def index_def)
qed

lemma grow_capacity_size_t_eq:
  assumes gf: "2 \<le> gf" and fit: "n * gf \<le> 2 ^ 64"
  shows "0 < cap \<Longrightarrow> grow_capacity_size_t gf cap n = grow_capacity gf cap n"
proof (induction "n - cap" arbitrary: cap rule: less_induct)
  case less
  show ?case
  proof (cases "cap < n")
    case True
    have "cap * 2 \<le> cap * gf" using gf by (rule mult_le_mono2)
    then have "cap < cap * gf" using less.prems by simp
    then have m: "n - cap * gf < n - cap" "0 < cap * gf" using True by linarith+
    have "cap * gf < n * gf" using True gf by simp
    then have "cap * gf < 2 ^ 64" using fit by (rule less_le_trans)
    then have w: "size_t (cap * gf) = cap * gf" by (rule size_t_id)
    have "grow_capacity_size_t gf cap n = grow_capacity_size_t gf (cap * gf) n"
      using True w by (subst grow_capacity_size_t.simps) simp
    also have "\<dots> = grow_capacity gf (cap * gf) n" using m by (rule less.hyps)
    also have "\<dots> = grow_capacity gf cap n"
      using True by (subst (2) grow_capacity.simps) simp
    finally show ?thesis .
  next
    case False
    then show ?thesis
      by (subst grow_capacity_size_t.simps, subst grow_capacity.simps) simp
  qed
qed

lemma grown_capacity_lt:
  assumes g: "grow_capacity gf cap0 n = Some nc" and gf: "0 < gf"
    and c0: "cap0 < B" and fit: "n * gf \<le> B"
  shows "nc < B"
proof -
  from grow_capacity_SomeD [OF g] obtain k where nc: "nc = cap0 * gf ^ k"
    and least: "\<forall>k'<k. cap0 * gf ^ k' < n" by blast
  show ?thesis
  proof (cases k)
    case 0
    then show ?thesis using nc c0 by simp
  next
    case (Suc k')
    with least have "cap0 * gf ^ k' < n" by simp
    then have "cap0 * gf ^ k' * gf < n * gf" using gf by (rule mult_less_mono1)
    then have "cap0 * gf ^ k' * gf < B" using fit by (rule less_le_trans)
    moreover have "nc = cap0 * gf ^ k' * gf" using nc Suc by (simp add: mult.assoc mult.commute)
    ultimately show ?thesis by (simp only:)
  qed
qed

lemma copy_cells_size_t_eq:
  assumes wf: "mt_wf mt" and cap: "capacity mt < 2 ^ 32"
    and n: "num_states mt \<le> nc" and nc: "nc < 2 ^ 32"
  shows "copy_cells_size_t mt nc acc = copy_cells mt nc acc"
  unfolding copy_cells_size_t_def copy_cells_def
proof (rule fold_cong [OF refl refl], rule ext, rule fold_cong [OF refl refl], rule ext)
  fix second first a
  assume "second \<in> set [0..<num_states mt]" "first \<in> set [0..<num_states mt]"
  then have s: "second < num_states mt" and f: "first < num_states mt" by simp_all
  have g: "mt_get_size_t mt first second = mt_get mt first second"
    using wf cap f s by (rule mt_get_size_t_wf)
  have "first < nc" "second < nc" using f s n by simp_all
  from offset_size_t [OF this nc]
  show "copy_cell_size_t mt nc second first a = copy_cell mt nc second first a"
    by (cases a) (simp_all add: copy_cell_size_t_def copy_cell_def g split: sum.splits)
qed

lemma resize_size_t_eq:
  assumes wf: "mt_wf mt" and gf: "2 \<le> GROW_FACTOR c" and ms: "0 < MIN_SIZE c"
    and msf: "MIN_SIZE c < 2 ^ 32" and fit: "new_K * GROW_FACTOR c \<le> 2 ^ 32"
  shows "resize_size_t c mt new_K = resize c mt new_K"
proof (cases "new_K \<le> capacity mt")
  case True
  then show ?thesis by (simp add: resize_size_t_def resize_def)
next
  case False
  let ?c0 = "max (MIN_SIZE c) (capacity mt)"
  have pos: "0 < ?c0" using ms by simp
  have "new_K * 1 \<le> new_K * GROW_FACTOR c" using gf by (intro mult_le_mono2) simp
  then have "new_K \<le> new_K * GROW_FACTOR c" by (simp only: mult_1_right)
  then have K: "new_K \<le> 2 ^ 32" using fit by (rule order_trans)
  with False have cap: "capacity mt < 2 ^ 32" by simp
  with msf have c0: "?c0 < 2 ^ 32" by simp
  have "(2::nat) ^ 32 \<le> 2 ^ 64" by simp
  with fit have fit64: "new_K * GROW_FACTOR c \<le> 2 ^ 64" by (rule order_trans)
  have loop: "grow_capacity_size_t (GROW_FACTOR c) ?c0 new_K
              = grow_capacity (GROW_FACTOR c) ?c0 new_K"
    using gf fit64 pos by (rule grow_capacity_size_t_eq)
  from grow_capacity_terminates [OF gf pos, of new_K] obtain nc where
    g: "grow_capacity (GROW_FACTOR c) ?c0 new_K = Some nc" by blast
  have gf0: "0 < GROW_FACTOR c" using gf by simp
  have nc: "nc < 2 ^ 32" using g gf0 c0 fit by (rule grown_capacity_lt)
  have le: "new_K \<le> nc" using grow_capacity_SomeD [OF g] by simp
  have n: "num_states mt \<le> nc" using wf False le by (simp add: mt_wf_def)
  have sq: "size_t (nc * nc) = nc * nc" using square_fits [OF nc] by (rule size_t_id)
  have "copy_cells_size_t mt nc (Inr (replicate (nc * nc) (Transition_default c)))
        = copy_cells mt nc (Inr (replicate (nc * nc) (Transition_default c)))"
    using wf cap n nc by (rule copy_cells_size_t_eq)
  then show ?thesis using False by (simp add: resize_size_t_def resize_def loop g sq)
qed


definition mt_a :: MergeTable where
  "mt_a = \<lparr>num_states = 1, capacity = 2,
           merge_table = [\<lparr>result_state = 0, produces_lexeme = True\<rparr>,
                          Transition_default c_small, Transition_default c_small,
                          Transition_default c_small]\<rparr>"

text \<open>
  Claim C8. \<open>resize(new_K)\<close> with \<open>new_K \<le> capacity\<close> changes the logical side length
  and nothing else. With \<open>new_K > capacity\<close>, constants that let the capacity grow (a
  growth factor of at least two and a positive minimum size) and sizes that do not wrap
  around (\<open>MIN_SIZE\<close> below \<open>2 ^ 32\<close> and \<open>new_K * GROW_FACTOR\<close> at most \<open>2 ^ 32\<close>, so
  that the square of the new capacity is below \<open>2 ^ 64\<close>) it returns; the new capacity is
  \<open>max(MIN_SIZE, capacity)\<close> multiplied by \<open>GROW_FACTOR\<close> the least number of times \<open>k\<close>
  that makes it at least \<open>new_K\<close>; every cell of the old logical square is at the same
  \<open>(first, second)\<close> under the new stride; every other cell of the new array is
  \<open>(REJECT, false)\<close>.
\<close>

theorem resize_spec:
  assumes wf: "mt_wf mt" and gf: "2 \<le> GROW_FACTOR c" and ms: "0 < MIN_SIZE c"
  shows "(new_K \<le> capacity mt \<longrightarrow>
            resize_size_t c mt new_K = Some (Inr (mt\<lparr>num_states := new_K\<rparr>)))
       \<and> (capacity mt < new_K \<and> MIN_SIZE c < 2 ^ 32 \<and> new_K * GROW_FACTOR c \<le> 2 ^ 32 \<longrightarrow>
            (\<exists>k mt'. resize_size_t c mt new_K = Some (Inr mt')
               \<and> num_states mt' = new_K
               \<and> capacity mt' = max (MIN_SIZE c) (capacity mt) * GROW_FACTOR c ^ k
               \<and> new_K \<le> capacity mt'
               \<and> (\<forall>k'<k. max (MIN_SIZE c) (capacity mt) * GROW_FACTOR c ^ k' < new_K)
               \<and> length (merge_table mt') = capacity mt' * capacity mt'
               \<and> (\<forall>first<capacity mt'. \<forall>second<capacity mt'.
                     merge_table mt' ! (first + second * capacity mt') =
                       (if first < num_states mt \<and> second < num_states mt
                        then merge_table mt ! (first + second * capacity mt)
                        else \<lparr>result_state = REJECT c, produces_lexeme = False\<rparr>))
               \<and> (\<forall>first<num_states mt. \<forall>second<num_states mt.
                     mt_get_size_t mt' first second = mt_get_size_t mt first second)
               \<and> (\<forall>first<new_K. \<forall>second<new_K.
                     \<not> (first < num_states mt \<and> second < num_states mt)
                     \<longrightarrow> mt_get_size_t mt' first second
                          = Inr \<lparr>result_state = REJECT c, produces_lexeme = False\<rparr>)))"
proof (intro conjI impI)
  assume "new_K \<le> capacity mt"
  then show "resize_size_t c mt new_K = Some (Inr (mt\<lparr>num_states := new_K\<rparr>))"
    by (simp add: resize_size_t_def)
next
  assume a: "capacity mt < new_K \<and> MIN_SIZE c < 2 ^ 32 \<and> new_K * GROW_FACTOR c \<le> 2 ^ 32"
  then have big: "capacity mt < new_K" and msf: "MIN_SIZE c < 2 ^ 32"
    and fit: "new_K * GROW_FACTOR c \<le> 2 ^ 32" by simp_all
  have eq: "resize_size_t c mt new_K = resize c mt new_K"
    using wf gf ms msf fit by (rule resize_size_t_eq)
  from resize_unbounded [OF wf gf ms big] obtain k mt' where
    r: "resize c mt new_K = Some (Inr mt')" and ns: "num_states mt' = new_K"
    and cap': "capacity mt' = max (MIN_SIZE c) (capacity mt) * GROW_FACTOR c ^ k"
    and le: "new_K \<le> capacity mt'"
    and least: "\<forall>k'<k. max (MIN_SIZE c) (capacity mt) * GROW_FACTOR c ^ k' < new_K"
    and l: "length (merge_table mt') = capacity mt' * capacity mt'"
    and v: "\<forall>first<capacity mt'. \<forall>second<capacity mt'.
                     merge_table mt' ! (first + second * capacity mt') =
                       (if first < num_states mt \<and> second < num_states mt
                        then merge_table mt ! (first + second * capacity mt)
                        else Transition_default c)"
    and kept: "\<forall>first<num_states mt. \<forall>second<num_states mt.
                     mt_get mt' first second = mt_get mt first second"
    and fresh: "\<forall>first<new_K. \<forall>second<new_K.
                     \<not> (first < num_states mt \<and> second < num_states mt)
                     \<longrightarrow> mt_get mt' first second = Inr (Transition_default c)"
    by blast
  have wf': "mt_wf mt'" using ns le l by (simp add: mt_wf_def)
  have "new_K * 1 \<le> new_K * GROW_FACTOR c" using gf by (intro mult_le_mono2) simp
  then have "new_K \<le> new_K * GROW_FACTOR c" by (simp only: mult_1_right)
  then have K: "new_K \<le> 2 ^ 32" using fit by (rule order_trans)
  with big have cap: "capacity mt < 2 ^ 32" by simp
  with msf have c0: "max (MIN_SIZE c) (capacity mt) < 2 ^ 32" by simp
  from r big obtain nc where
    g: "grow_capacity (GROW_FACTOR c) (max (MIN_SIZE c) (capacity mt)) new_K = Some nc"
    by (auto simp: resize_def split: option.splits)
  from resize_grow [OF wf big g] r have "capacity mt' = nc" by auto
  moreover have "0 < GROW_FACTOR c" using gf by simp
  from g this c0 fit have "nc < 2 ^ 32" by (rule grown_capacity_lt)
  ultimately have capn: "capacity mt' < 2 ^ 32" by simp
  have old: "num_states mt < new_K" using wf big by (simp add: mt_wf_def)
  have kept': "\<forall>first<num_states mt. \<forall>second<num_states mt.
                     mt_get_size_t mt' first second = mt_get_size_t mt first second"
  proof (intro allI impI)
    fix first second assume fs: "first < num_states mt" "second < num_states mt"
    then have fs': "first < num_states mt'" "second < num_states mt'" using old ns by simp_all
    show "mt_get_size_t mt' first second = mt_get_size_t mt first second"
      using mt_get_size_t_wf [OF wf' capn fs'] mt_get_size_t_wf [OF wf cap fs] kept fs
      by simp
  qed
  have fresh': "\<forall>first<new_K. \<forall>second<new_K.
                     \<not> (first < num_states mt \<and> second < num_states mt)
                     \<longrightarrow> mt_get_size_t mt' first second
                          = Inr \<lparr>result_state = REJECT c, produces_lexeme = False\<rparr>"
  proof (intro allI impI)
    fix first second
    assume fs: "first < new_K" "second < new_K"
      and n: "\<not> (first < num_states mt \<and> second < num_states mt)"
    from fs have fs': "first < num_states mt'" "second < num_states mt'" using ns by simp_all
    from fresh fs n have "mt_get mt' first second = Inr (Transition_default c)" by blast
    then show "mt_get_size_t mt' first second
               = Inr \<lparr>result_state = REJECT c, produces_lexeme = False\<rparr>"
      using mt_get_size_t_wf [OF wf' capn fs'] by (simp add: Transition_default_def)
  qed
  have v': "\<forall>first<capacity mt'. \<forall>second<capacity mt'.
                     merge_table mt' ! (first + second * capacity mt') =
                       (if first < num_states mt \<and> second < num_states mt
                        then merge_table mt ! (first + second * capacity mt)
                        else \<lparr>result_state = REJECT c, produces_lexeme = False\<rparr>)"
    using v by (simp only: Transition_default_def)
  show "\<exists>k mt'. resize_size_t c mt new_K = Some (Inr mt')
               \<and> num_states mt' = new_K
               \<and> capacity mt' = max (MIN_SIZE c) (capacity mt) * GROW_FACTOR c ^ k
               \<and> new_K \<le> capacity mt'
               \<and> (\<forall>k'<k. max (MIN_SIZE c) (capacity mt) * GROW_FACTOR c ^ k' < new_K)
               \<and> length (merge_table mt') = capacity mt' * capacity mt'
               \<and> (\<forall>first<capacity mt'. \<forall>second<capacity mt'.
                     merge_table mt' ! (first + second * capacity mt') =
                       (if first < num_states mt \<and> second < num_states mt
                        then merge_table mt ! (first + second * capacity mt)
                        else \<lparr>result_state = REJECT c, produces_lexeme = False\<rparr>))
               \<and> (\<forall>first<num_states mt. \<forall>second<num_states mt.
                     mt_get_size_t mt' first second = mt_get_size_t mt first second)
               \<and> (\<forall>first<new_K. \<forall>second<new_K.
                     \<not> (first < num_states mt \<and> second < num_states mt)
                     \<longrightarrow> mt_get_size_t mt' first second
                          = Inr \<lparr>result_state = REJECT c, produces_lexeme = False\<rparr>)"
    apply (rule exI [of _ k])
    apply (rule exI [of _ mt'])
    apply (intro conjI)
            apply (simp only: eq r)
           apply (rule ns)
          apply (rule cap')
         apply (rule le)
        apply (rule least)
       apply (rule l)
      apply (rule v')
     apply (rule kept')
    apply (rule fresh')
    done
qed

theorem resize_spec_witness:
  "mt_wf mt_a \<and> 2 \<le> GROW_FACTOR c_small \<and> 0 < MIN_SIZE c_small
   \<and> 2 \<le> capacity mt_a
   \<and> capacity mt_a < 3 \<and> MIN_SIZE c_small < 2 ^ 32 \<and> 3 * GROW_FACTOR c_small \<le> 2 ^ 32
   \<and> resize_size_t c_small mt_a 2 = Some (Inr (mt_a\<lparr>num_states := 2\<rparr>))
   \<and> (\<exists>k mt'. resize_size_t c_small mt_a 3 = Some (Inr mt')
         \<and> num_states mt' = 3
         \<and> capacity mt' = max (MIN_SIZE c_small) (capacity mt_a) * GROW_FACTOR c_small ^ k
         \<and> 3 \<le> capacity mt'
         \<and> mt_get_size_t mt' 0 0 = mt_get_size_t mt_a 0 0
         \<and> mt_get_size_t mt' 2 1
             = Inr \<lparr>result_state = REJECT c_small, produces_lexeme = False\<rparr>)
   \<and> mt_get_size_t mt_a 0 0 = Inr \<lparr>result_state = 0, produces_lexeme = True\<rparr>"
proof -
  have h: "mt_wf mt_a" "2 \<le> GROW_FACTOR c_small" "0 < MIN_SIZE c_small"
    by (simp_all add: mt_a_def c_small_def mt_wf_def)
  have small: "2 \<le> capacity mt_a" and n: "num_states mt_a = 1"
    by (simp_all add: mt_a_def)
  have big: "capacity mt_a < 3 \<and> MIN_SIZE c_small < 2 ^ 32 \<and> 3 * GROW_FACTOR c_small \<le> 2 ^ 32"
    by (simp add: mt_a_def c_small_def)
  have old: "mt_get_size_t mt_a 0 0 = Inr \<lparr>result_state = 0, produces_lexeme = True\<rparr>"
    by (simp add: mt_get_size_t_def index_size_t_def size_t_def mt_a_def)
  note spec = resize_spec [OF h]
  have r2: "resize_size_t c_small mt_a 2 = Some (Inr (mt_a\<lparr>num_states := 2\<rparr>))"
    using spec [of 2, THEN conjunct1] small by simp
  from spec [of 3, THEN conjunct2, THEN mp, OF big] obtain k mt' where
    r: "resize_size_t c_small mt_a 3 = Some (Inr mt')" and ns: "num_states mt' = 3"
    and cap: "capacity mt' = max (MIN_SIZE c_small) (capacity mt_a) * GROW_FACTOR c_small ^ k"
    and le: "3 \<le> capacity mt'"
    and kept: "\<forall>first<num_states mt_a. \<forall>second<num_states mt_a.
                     mt_get_size_t mt' first second = mt_get_size_t mt_a first second"
    and fresh: "\<forall>first<3. \<forall>second<3.
                     \<not> (first < num_states mt_a \<and> second < num_states mt_a)
                     \<longrightarrow> mt_get_size_t mt' first second
                          = Inr \<lparr>result_state = REJECT c_small, produces_lexeme = False\<rparr>"
    by blast
  have "mt_get_size_t mt' 0 0 = mt_get_size_t mt_a 0 0" using kept n by simp
  moreover have "mt_get_size_t mt' 2 1
                 = Inr \<lparr>result_state = REJECT c_small, produces_lexeme = False\<rparr>"
    using fresh n by simp
  ultimately show ?thesis using h small big r2 r ns cap le old by blast
qed

text \<open>
  Claim C8 as stated, for every \<open>new_K\<close>, fails where the square of the new capacity
  wraps around. With \<open>MIN_SIZE = 2\<close> and \<open>GROW_FACTOR = 2\<close>, \<open>resize(2 ^ 32 + 1)\<close> doubles
  the capacity up to \<open>2 ^ 33\<close>, whose square is \<open>0\<close> modulo \<open>2 ^ 64\<close>: the array has no
  cell. On the empty table the call returns, and the newly exposed cell \<open>(0, 0)\<close> is not
  a default-initialized cell but a read out of range. On the table \<open>mt_a\<close>, which holds
  an entry at \<open>(0, 0)\<close>, the copy of that entry is a write out of range.
\<close>

theorem resize_spec_counterexample:
  "resize_size_t c_small MergeTable_new 4294967297
     = Some (Inr \<lparr>num_states = 4294967297, capacity = 8589934592, merge_table = []\<rparr>)
   \<and> mt_get_size_t \<lparr>num_states = 4294967297, capacity = 8589934592, merge_table = []\<rparr> 0 0
       = Inl OutOfBounds
   \<and> mt_get_size_t mt_a 0 0 = Inr \<lparr>result_state = 0, produces_lexeme = True\<rparr>
   \<and> resize_size_t c_small mt_a 4294967297 = Some (Inl OutOfBounds)"
proof -
  have g: "grow_capacity_size_t 2 2 4294967297 = Some 8589934592"
    by (simp add: grow_capacity_size_t.simps size_t_def)
  have old: "mt_get_size_t mt_a 0 0 = Inr \<lparr>result_state = 0, produces_lexeme = True\<rparr>"
    by (simp add: mt_get_size_t_def index_size_t_def size_t_def mt_a_def)
  have a: "resize_size_t c_small MergeTable_new 4294967297
     = Some (Inr \<lparr>num_states = 4294967297, capacity = 8589934592, merge_table = []\<rparr>)"
    by (simp add: resize_size_t_def MergeTable_new_def c_small_def g size_t_def
        copy_cells_size_t_def)
  have b: "mt_get_size_t \<lparr>num_states = 4294967297, capacity = 8589934592, merge_table = []\<rparr> 0 0
       = Inl OutOfBounds"
    by (simp add: mt_get_size_t_def index_size_t_def size_t_def)
  have n: "num_states mt_a = 1" "capacity mt_a = 2" by (simp_all add: mt_a_def)
  have "copy_cells_size_t mt_a 8589934592 (Inr []) = Inl OutOfBounds"
    by (simp add: copy_cells_size_t_def copy_cell_size_t_def n old)
  then have c: "resize_size_t c_small mt_a 4294967297 = Some (Inl OutOfBounds)"
    by (simp add: resize_size_t_def c_small_def n g size_t_def)
  show ?thesis using a b old c by simp
qed

subsection \<open>The assertions of \<open>index\<close>\<close>

lemma index_assertion:
  "index mt first second = Inl AssertionFailed
     \<longleftrightarrow> num_states mt < first \<or> num_states mt < second"
  by (auto simp: index_def)

text \<open>The table of one state that \<open>resize(1)\<close> makes of the empty table.\<close>

definition mt_one :: MergeTable where
  "mt_one = \<lparr>num_states = 1, capacity = 2,
             merge_table = [Transition_default c_small, Transition_default c_small,
                            Transition_default c_small, Transition_default c_small]\<rparr>"

text \<open>
  Claim C9 against the code. The two assertions of \<open>MergeTable::index\<close> compare with
  \<open><=\<close>, so \<open>first = states()\<close> and \<open>second = states()\<close> pass them. On the table of one
  state (capacity two) that \<open>resize(1)\<close> makes of the empty table, \<open>(1, 1)\<close> is accepted
  and reads and writes offset 3, outside the logical one-by-one table. After \<open>resize(2)\<close>
  the logical side equals the capacity, and \<open>(2, 2)\<close> is accepted with offset 6, past
  the end of the four-cell array.
\<close>

theorem index_accepts_states:
  "resize c_small MergeTable_new 1 = Some (Inr mt_one)
   \<and> mt_states mt_one = 1
   \<and> index mt_one 1 1 = Inr 3
   \<and> mt_get mt_one 1 1 = Inr (Transition_default c_small)
   \<and> mt_set mt_one 1 1 \<lparr>result_state = 0, produces_lexeme = True\<rparr>
       = Inr (mt_one\<lparr>merge_table := [Transition_default c_small, Transition_default c_small,
                Transition_default c_small, \<lparr>result_state = 0, produces_lexeme = True\<rparr>]\<rparr>)
   \<and> resize c_small mt_one 2 = Some (Inr (mt_one\<lparr>num_states := 2\<rparr>))
   \<and> mt_states (mt_one\<lparr>num_states := 2\<rparr>) = 2
   \<and> index (mt_one\<lparr>num_states := 2\<rparr>) 2 2 = Inr 6
   \<and> length (merge_table (mt_one\<lparr>num_states := 2\<rparr>)) = 4
   \<and> mt_get (mt_one\<lparr>num_states := 2\<rparr>) 2 2 = Inl OutOfBounds"
  by code_simp

section \<open>The interner\<close>

text \<open>
  The invariant of \<open>enqueue\<close>: \<open>seen\<close> maps the \<open>k\<close>-th element of \<open>states\<close> to \<open>k\<close> and
  has no other key, no parallel state is interned twice, and the merge table has one
  row and one column per interned state.
\<close>

definition interner_inv :: "'l ParallelLexer \<Rightarrow> bool" where
  "interner_inv b \<longleftrightarrow>
     seen b = zip (states b) [0..<length (states b)]
     \<and> distinct (states b)
     \<and> mt_states (lexer_merge_table b) = length (states b)"

lemma interner_inv_new: "interner_inv ParallelLexer_new"
  by (simp add: interner_inv_def ParallelLexer_new_def MergeTable_new_def mt_states_def)

lemma interner_lookup:
  assumes "interner_inv b"
  shows "map_of (seen b) ps = Some k \<longleftrightarrow> k < length (states b) \<and> states b ! k = ps"
proof
  assume "map_of (seen b) ps = Some k"
  then have "(ps, k) \<in> set (zip (states b) [0..<length (states b)])"
    using assms by (auto simp: interner_inv_def dest: map_of_SomeD)
  then show "k < length (states b) \<and> states b ! k = ps"
    by (auto simp: set_zip)
next
  assume a: "k < length (states b) \<and> states b ! k = ps"
  have "map_of (zip (states b) [0..<length (states b)]) (states b ! k) = Some ([0..<length (states b)] ! k)"
    using assms a by (intro map_of_zip_nth) (simp_all add: interner_inv_def)
  then show "map_of (seen b) ps = Some k"
    using assms a by (simp add: interner_inv_def)
qed

lemma interner_lookup_None:
  assumes "interner_inv b"
  shows "map_of (seen b) ps = None \<longleftrightarrow> ps \<notin> set (states b)"
proof -
  have "fst ` set (seen b) = set (states b)"
    using assms map_fst_zip [of "states b" "[0..<length (states b)]"]
    by (metis interner_inv_def length_upt minus_nat.diff_0 set_map)
  then show ?thesis by (simp add: map_of_eq_None_iff)
qed

lemma resize_num_states:
  "resize c mt new_K = Some (Inr mt') \<Longrightarrow> num_states mt' = new_K"
  by (auto simp: resize_def split: if_splits option.splits sum.splits)

lemma rbind_Inr:
  "rbind m f = Some (Inr y) \<longleftrightarrow> (\<exists>x. m = Some (Inr x) \<and> f x = Some (Inr y))"
  by (auto simp: rbind_def split: option.splits sum.splits)

lemma enqueue_seen:
  assumes "interner_inv b" "ps \<in> set (states b)"
  shows "\<exists>k. enqueue c ps b = Some (Inr (k, b)) \<and> k < length (states b) \<and> states b ! k = ps"
proof -
  from assms(2) obtain k where k: "k < length (states b)" "states b ! k = ps"
    by (auto simp: in_set_conv_nth)
  then have "map_of (seen b) ps = Some k" using interner_lookup [OF assms(1)] by simp
  then show ?thesis using k by (simp add: enqueue_def)
qed

lemma enqueue_fresh:
  assumes inv: "interner_inv b" and new: "ps \<notin> set (states b)"
    and r: "enqueue c ps b = Some (Inr (k, b'))"
  shows "k = length (states b)
         \<and> (\<exists>mt. resize c (lexer_merge_table b) (Suc (length (states b))) = Some (Inr mt)
               \<and> b' = b\<lparr>seen := seen b @ [(ps, k)], states := states b @ [ps],
                        lexer_merge_table := mt\<rparr>)"
proof -
  have "map_of (seen b) ps = None" using interner_lookup_None [OF inv] new by simp
  with r show ?thesis by (auto simp: enqueue_def rbind_Inr Let_def)
qed

lemma enqueue_inv:
  assumes inv: "interner_inv b" and r: "enqueue c ps b = Some (Inr (k, b'))"
  shows "interner_inv b'"
proof (cases "ps \<in> set (states b)")
  case True
  with enqueue_seen [OF inv True, of c] r inv show ?thesis by auto
next
  case False
  from enqueue_fresh [OF inv False r] obtain mt where k: "k = length (states b)"
    and mt: "resize c (lexer_merge_table b) (Suc (length (states b))) = Some (Inr mt)"
    and b': "b' = b\<lparr>seen := seen b @ [(ps, k)], states := states b @ [ps],
                        lexer_merge_table := mt\<rparr>"
    by blast
  have "seen b' = zip (states b') [0..<length (states b')]"
    using inv by (simp add: b' k interner_inv_def)
  moreover have "distinct (states b')" using inv False by (simp add: b' interner_inv_def)
  moreover have "mt_states (lexer_merge_table b') = length (states b')"
    using resize_num_states [OF mt] by (simp add: b' mt_states_def)
  ultimately show ?thesis by (simp add: interner_inv_def)
qed

lemma mt_set_num_states:
  "mt_set mt i j t = Inr mt' \<Longrightarrow> num_states mt' = num_states mt \<and> capacity mt' = capacity mt"
  by (auto simp: mt_set_def split: sum.splits if_splits)

text \<open>
  The first half of the \<open>merge\<close> lambda (the choice of \<open>result\<close>) and its second half
  (the write of the cell), as the two arguments of \<open>rbind\<close> in \<open>merge\<close>.
\<close>

lemma merge_Inr_cases:
  assumes "merge c i j b = Some (Inr b')"
  obtains result b1 mt where
    "if i = identity_state_index b then result = j \<and> b1 = b
     else if j = identity_state_index b then result = i \<and> b1 = b
     else i < length (states b) \<and> j < length (states b)
        \<and> in_range (states b ! i) (length (states b ! j))
        \<and> enqueue c (compose (states b ! i) (states b ! j)) b = Some (Inr (result, b1))"
    "result < length (states b1)" "START c < length (states b1 ! result)"
    "mt_set (lexer_merge_table b1) i j
       \<lparr>result_state = result,
        produces_lexeme = produces_lexeme (states b1 ! result ! START c)\<rparr> = Inr mt"
    "b' = b1\<lparr>lexer_merge_table := mt\<rparr>"
proof -
  from assms obtain result b1 where
    first: "(if i = identity_state_index b then Some (Inr (j, b))
        else if j = identity_state_index b then Some (Inr (i, b))
        else if i < length (states b) \<and> j < length (states b)
        then (case ParallelState_merge (states b ! i) (states b ! j) of
                Inl e \<Rightarrow> Some (Inl e)
              | Inr ps \<Rightarrow> enqueue c ps b)
        else Some (Inl OutOfBounds)) = Some (Inr (result, b1))"
    and second: "(if result < length (states b1) \<and> START c < length (states b1 ! result)
          then (case mt_set (lexer_merge_table b1) i j
                       \<lparr>result_state = result,
                        produces_lexeme = produces_lexeme (states b1 ! result ! START c)\<rparr> of
                  Inl e \<Rightarrow> Some (Inl e)
                | Inr mt \<Rightarrow> Some (Inr (b1\<lparr>lexer_merge_table := mt\<rparr>)))
          else Some (Inl OutOfBounds)) = Some (Inr b')"
    unfolding merge_def rbind_Inr by (auto split: prod.splits)
  from second obtain mt where
    r: "result < length (states b1)" "START c < length (states b1 ! result)"
    and set: "mt_set (lexer_merge_table b1) i j
       \<lparr>result_state = result,
        produces_lexeme = produces_lexeme (states b1 ! result ! START c)\<rparr> = Inr mt"
    and b': "b' = b1\<lparr>lexer_merge_table := mt\<rparr>"
    by (auto split: if_splits sum.splits)
  have "if i = identity_state_index b then result = j \<and> b1 = b
     else if j = identity_state_index b then result = i \<and> b1 = b
     else i < length (states b) \<and> j < length (states b)
        \<and> in_range (states b ! i) (length (states b ! j))
        \<and> enqueue c (compose (states b ! i) (states b ! j)) b = Some (Inr (result, b1))"
    using first by (auto simp: merge_Inr_iff split: if_splits sum.splits)
  then show thesis using r set b' that by blast
qed

lemma merge_interner_inv:
  assumes inv: "interner_inv b" and r: "merge c i j b = Some (Inr b')"
  shows "interner_inv b'"
proof -
  from r obtain result b1 mt where
    first: "if i = identity_state_index b then result = j \<and> b1 = b
     else if j = identity_state_index b then result = i \<and> b1 = b
     else i < length (states b) \<and> j < length (states b)
        \<and> in_range (states b ! i) (length (states b ! j))
        \<and> enqueue c (compose (states b ! i) (states b ! j)) b = Some (Inr (result, b1))"
    and set: "mt_set (lexer_merge_table b1) i j
       \<lparr>result_state = result,
        produces_lexeme = produces_lexeme (states b1 ! result ! START c)\<rparr> = Inr mt"
    and b': "b' = b1\<lparr>lexer_merge_table := mt\<rparr>"
    by (rule merge_Inr_cases)
  have "interner_inv b1"
    using first inv enqueue_inv [OF inv] by (auto split: if_splits)
  then show ?thesis
    using mt_set_num_states [OF set] by (simp add: b' interner_inv_def mt_states_def)
qed

text \<open>
  Claim C10. The empty constructor state satisfies the interner invariant. In a state
  that satisfies it, \<open>seen\<close>, \<open>states\<close> and the merge table have the same cardinality and
  \<open>seen\<close> maps a parallel state to \<open>k\<close> exactly when it is \<open>states[k]\<close>. The two
  operations that touch the three containers, \<open>enqueue\<close> and \<open>merge\<close>, keep the
  invariant; \<open>enqueue\<close> of a state that is already interned returns its index and leaves
  the whole constructor state as it was.
\<close>

theorem interner_invariant:
  fixes b :: "'l ParallelLexer"
  shows "interner_inv (ParallelLexer_new :: 'l ParallelLexer)
     \<and> (interner_inv b \<longrightarrow>
          length (seen b) = length (states b)
          \<and> mt_states (lexer_merge_table b) = length (states b)
          \<and> (\<forall>ps k. map_of (seen b) ps = Some k \<longleftrightarrow> k < length (states b) \<and> states b ! k = ps)
          \<and> (\<forall>ps k b'. enqueue c ps b = Some (Inr (k, b'))
                \<longrightarrow> interner_inv b' \<and> map_of (seen b') ps = Some k
                    \<and> (ps \<in> set (states b) \<longrightarrow> b' = b))
          \<and> (\<forall>ps\<in>set (states b). \<exists>k. enqueue c ps b = Some (Inr (k, b)) \<and> states b ! k = ps)
          \<and> (\<forall>i j b'. merge c i j b = Some (Inr b') \<longrightarrow> interner_inv b'))"
proof (intro conjI impI)
  show "interner_inv (ParallelLexer_new :: 'l ParallelLexer)" by (rule interner_inv_new)
next
  assume inv: "interner_inv b"
  show "length (seen b) = length (states b)" using inv by (simp add: interner_inv_def)
  show "mt_states (lexer_merge_table b) = length (states b)"
    using inv by (simp add: interner_inv_def)
  show "\<forall>ps k. map_of (seen b) ps = Some k \<longleftrightarrow> k < length (states b) \<and> states b ! k = ps"
    using interner_lookup [OF inv] by blast
  show "\<forall>ps k b'. enqueue c ps b = Some (Inr (k, b'))
                \<longrightarrow> interner_inv b' \<and> map_of (seen b') ps = Some k
                    \<and> (ps \<in> set (states b) \<longrightarrow> b' = b)"
  proof (intro allI impI)
    fix ps k b' assume r: "enqueue c ps b = Some (Inr (k, b'))"
    have inv': "interner_inv b'" by (rule enqueue_inv [OF inv r])
    have "map_of (seen b') ps = Some k"
    proof (cases "ps \<in> set (states b)")
      case True
      with enqueue_seen [OF inv True, of c] r interner_lookup [OF inv] show ?thesis by auto
    next
      case False
      from enqueue_fresh [OF inv False r] have "k = length (states b)"
        "states b' = states b @ [ps]" by auto
      then show ?thesis using interner_lookup [OF inv', of ps k] by simp
    qed
    moreover have "ps \<in> set (states b) \<longrightarrow> b' = b"
      using enqueue_seen [OF inv, of ps c] r by auto
    ultimately show "interner_inv b' \<and> map_of (seen b') ps = Some k
                    \<and> (ps \<in> set (states b) \<longrightarrow> b' = b)"
      using inv' by simp
  qed
  show "\<forall>ps\<in>set (states b). \<exists>k. enqueue c ps b = Some (Inr (k, b)) \<and> states b ! k = ps"
    using enqueue_seen [OF inv] by blast
  show "\<forall>i j b'. merge c i j b = Some (Inr b') \<longrightarrow> interner_inv b'"
    using merge_interner_inv [OF inv] by blast
qed

definition b_one :: "nat ParallelLexer" where
  "b_one = \<lparr>seen = [([\<lparr>result_state = 0, produces_lexeme = True\<rparr>], 0)],
            states = [[\<lparr>result_state = 0, produces_lexeme = True\<rparr>]],
            initial_states = [\<lparr>result_state = 0, produces_lexeme = True\<rparr>],
            lexer_merge_table = mt_one,
            identity_state_index = 0,
            final_states = []\<rparr>"

theorem interner_invariant_witness:
  "interner_inv b_one
   \<and> length (seen b_one) = length (states b_one)
   \<and> mt_states (lexer_merge_table b_one) = length (states b_one)
   \<and> [\<lparr>result_state = 0, produces_lexeme = True\<rparr>] \<in> set (states b_one)
   \<and> enqueue c_small [\<lparr>result_state = 0, produces_lexeme = True\<rparr>] b_one = Some (Inr (0, b_one))
   \<and> (\<exists>b'. enqueue c_small [\<lparr>result_state = 0, produces_lexeme = False\<rparr>] b_one
              = Some (Inr (1, b'))
          \<and> interner_inv b'
          \<and> map_of (seen b') [\<lparr>result_state = 0, produces_lexeme = False\<rparr>] = Some 1)"
proof -
  have inv: "interner_inv b_one"
    by (simp add: interner_inv_def b_one_def mt_one_def mt_states_def)
  note th = interner_invariant [of b_one c_small, THEN conjunct2, THEN mp, OF inv]
  have mem: "[\<lparr>result_state = 0, produces_lexeme = True\<rparr>] \<in> set (states b_one)"
    by (simp add: b_one_def)
  have old: "enqueue c_small [\<lparr>result_state = 0, produces_lexeme = True\<rparr>] b_one
             = Some (Inr (0, b_one))"
    by code_simp
  have "case enqueue c_small [\<lparr>result_state = 0, produces_lexeme = False\<rparr>] b_one of
          Some (Inr (k, b')) \<Rightarrow> k = 1 | _ \<Rightarrow> False"
    by code_simp
  then obtain b' where new: "enqueue c_small [\<lparr>result_state = 0, produces_lexeme = False\<rparr>] b_one
              = Some (Inr (1, b'))"
    by (auto split: option.splits sum.splits prod.splits)
  with th have "interner_inv b'"
    "map_of (seen b') [\<lparr>result_state = 0, produces_lexeme = False\<rparr>] = Some 1"
    by blast+
  with inv th mem old new show ?thesis by blast
qed

section \<open>The saturation loop\<close>

text \<open>
  \<open>N\<close> is the number of states of the automaton. The constructor state is well formed
  when the interner invariant and the class invariant of the merge table hold and every
  interned parallel state has width \<open>N\<close>.
\<close>

definition builder_inv :: "nat \<Rightarrow> 'l ParallelLexer \<Rightarrow> bool" where
  "builder_inv N b \<longleftrightarrow>
     interner_inv b \<and> mt_wf (lexer_merge_table b) \<and> (\<forall>ps\<in>set (states b). length ps = N)"

text \<open>
  What the \<open>merge\<close> lambda computes as \<open>result\<close> for the pair \<open>(i, j)\<close>: the other operand
  when one operand is the identity index \<open>idx\<close>, and otherwise the index of the
  composition, all of whose reads were in range.
\<close>

definition result_ok ::
  "nat \<Rightarrow> ParallelState list \<Rightarrow> StateIndex \<Rightarrow> StateIndex \<Rightarrow> StateIndex \<Rightarrow> StateIndex \<Rightarrow> bool" where
  "result_ok N sts idx i j r \<longleftrightarrow>
     r < length sts
     \<and> (if i = idx then r = j
        else if j = idx then r = i
        else in_range (sts ! i) N \<and> sts ! r = compose (sts ! i) (sts ! j))"

text \<open>The cell \<open>(i, j)\<close> of the merge table holds what \<open>merge(i, j)\<close> writes.\<close>

definition cell_ok :: "constants \<Rightarrow> nat \<Rightarrow> 'l ParallelLexer \<Rightarrow> StateIndex \<Rightarrow> StateIndex \<Rightarrow> bool" where
  "cell_ok c N b i j \<longleftrightarrow>
     (\<exists>t. mt_get (lexer_merge_table b) i j = Inr t
        \<and> result_ok N (states b) (identity_state_index b) i j (result_state t)
        \<and> produces_lexeme t = produces_lexeme (states b ! result_state t ! START c))"

definition extends :: "'l ParallelLexer \<Rightarrow> 'l ParallelLexer \<Rightarrow> bool" where
  "extends b b' \<longleftrightarrow>
     (\<exists>xs. states b' = states b @ xs)
     \<and> identity_state_index b' = identity_state_index b
     \<and> initial_states b' = initial_states b"

definition keeps :: "constants \<Rightarrow> nat \<Rightarrow> 'l ParallelLexer \<Rightarrow> 'l ParallelLexer \<Rightarrow> bool" where
  "keeps c N b b' \<longleftrightarrow>
     (\<forall>f s. f < length (states b) \<longrightarrow> s < length (states b)
        \<longrightarrow> cell_ok c N b f s \<longrightarrow> cell_ok c N b' f s)"

definition step :: "constants \<Rightarrow> nat \<Rightarrow> 'l ParallelLexer \<Rightarrow> 'l ParallelLexer \<Rightarrow> bool" where
  "step c N b b' \<longleftrightarrow> builder_inv N b' \<and> extends b b' \<and> keeps c N b b'"

lemma extends_refl: "extends b b"
  by (simp add: extends_def)

lemma extends_trans: "extends b b1 \<Longrightarrow> extends b1 b2 \<Longrightarrow> extends b b2"
  by (auto simp: extends_def)

lemma extends_length: "extends b b' \<Longrightarrow> length (states b) \<le> length (states b')"
  by (auto simp: extends_def)

lemma extends_nth: "extends b b' \<Longrightarrow> k < length (states b) \<Longrightarrow> states b' ! k = states b ! k"
  by (auto simp: extends_def nth_append)

lemma step_refl: "builder_inv N b \<Longrightarrow> step c N b b"
  by (simp add: step_def extends_refl keeps_def)

lemma step_trans:
  assumes "step c N b b1" "step c N b1 b2"
  shows "step c N b b2"
proof -
  have "keeps c N b b2"
    unfolding keeps_def
  proof (intro allI impI)
    fix f s assume a: "f < length (states b)" "s < length (states b)" "cell_ok c N b f s"
    then have "cell_ok c N b1 f s" using assms(1) by (simp add: step_def keeps_def)
    moreover have "f < length (states b1)" "s < length (states b1)"
      using a assms(1) extends_length [of b b1] by (simp_all add: step_def)
    ultimately show "cell_ok c N b2 f s" using assms(2) by (simp add: step_def keeps_def)
  qed
  then show ?thesis using assms extends_trans [of b b1 b2] by (simp add: step_def)
qed

lemma result_ok_ext:
  assumes "sts' = sts @ xs" "i < length sts" "j < length sts" "result_ok N sts idx i j r"
  shows "result_ok N sts' idx i j r"
  using assms by (auto simp: result_ok_def nth_append split: if_splits)

lemma cell_ok_ext:
  assumes ext: "extends b b'" and f: "f < length (states b)" and s: "s < length (states b)"
    and same: "mt_get (lexer_merge_table b') f s = mt_get (lexer_merge_table b) f s"
    and ok: "cell_ok c N b f s"
  shows "cell_ok c N b' f s"
proof -
  from ok obtain t where t: "mt_get (lexer_merge_table b) f s = Inr t"
    and r: "result_ok N (states b) (identity_state_index b) f s (result_state t)"
    and p: "produces_lexeme t = produces_lexeme (states b ! result_state t ! START c)"
    by (auto simp: cell_ok_def)
  from ext obtain xs where xs: "states b' = states b @ xs"
    and idx: "identity_state_index b' = identity_state_index b"
    by (auto simp: extends_def)
  have r': "result_ok N (states b') (identity_state_index b') f s (result_state t)"
    using result_ok_ext [OF xs f s r] idx by simp
  have "result_state t < length (states b)" using r by (simp add: result_ok_def)
  then have "states b' ! result_state t = states b ! result_state t"
    by (simp add: xs nth_append)
  with t r' p same show ?thesis by (auto simp: cell_ok_def)
qed

lemma enqueue_step:
  assumes inv: "builder_inv N b" and len: "length ps = N"
    and r: "enqueue c ps b = Some (Inr (k, b'))"
  shows "step c N b b' \<and> k < length (states b') \<and> states b' ! k = ps"
proof (cases "ps \<in> set (states b)")
  case True
  have i: "interner_inv b" using inv by (simp add: builder_inv_def)
  from enqueue_seen [OF i True, of c] r have "b' = b" "k < length (states b)" "states b ! k = ps"
    by auto
  then show ?thesis using step_refl [OF inv] by simp
next
  case False
  have i: "interner_inv b" and wf: "mt_wf (lexer_merge_table b)"
    using inv by (simp_all add: builder_inv_def)
  from enqueue_fresh [OF i False r] obtain mt where k: "k = length (states b)"
    and mt: "resize c (lexer_merge_table b) (Suc (length (states b))) = Some (Inr mt)"
    and b': "b' = b\<lparr>seen := seen b @ [(ps, k)], states := states b @ [ps],
                        lexer_merge_table := mt\<rparr>"
    by blast
  have sel: "states b' = states b @ [ps]" "lexer_merge_table b' = mt"
    "identity_state_index b' = identity_state_index b" "initial_states b' = initial_states b"
    by (simp_all add: b')
  have n: "num_states (lexer_merge_table b) = length (states b)"
    using i by (simp add: interner_inv_def mt_states_def)
  note rs = resize_Inr [OF wf mt]
  have inv': "builder_inv N b'"
    using enqueue_inv [OF i r] rs inv len by (auto simp: builder_inv_def sel)
  have ext: "extends b b'" by (simp add: extends_def sel)
  have "keeps c N b b'"
    unfolding keeps_def
  proof (intro allI impI)
    fix f s assume a: "f < length (states b)" "s < length (states b)" "cell_ok c N b f s"
    have "mt_get (lexer_merge_table b') f s = mt_get (lexer_merge_table b) f s"
      using rs a n by (simp add: sel)
    then show "cell_ok c N b' f s" using cell_ok_ext [OF ext a(1,2) _ a(3)] by simp
  qed
  then show ?thesis using inv' ext by (simp add: step_def sel k)
qed

lemma merge_step:
  assumes inv: "builder_inv N b" and i: "i < length (states b)" and j: "j < length (states b)"
    and r: "merge c i j b = Some (Inr b')"
  shows "step c N b b' \<and> cell_ok c N b' i j"
proof -
  from r obtain result b1 mt where
    first: "if i = identity_state_index b then result = j \<and> b1 = b
     else if j = identity_state_index b then result = i \<and> b1 = b
     else i < length (states b) \<and> j < length (states b)
        \<and> in_range (states b ! i) (length (states b ! j))
        \<and> enqueue c (compose (states b ! i) (states b ! j)) b = Some (Inr (result, b1))"
    and res: "result < length (states b1)"
    and set: "mt_set (lexer_merge_table b1) i j
       \<lparr>result_state = result,
        produces_lexeme = produces_lexeme (states b1 ! result ! START c)\<rparr> = Inr mt"
    and b': "b' = b1\<lparr>lexer_merge_table := mt\<rparr>"
    by (rule merge_Inr_cases)
  let ?idx = "identity_state_index b"
  have widths: "length (states b ! i) = N" "length (states b ! j) = N"
    using inv i j by (simp_all add: builder_inv_def)
  have s1: "step c N b b1" and rok: "result_ok N (states b1) ?idx i j result"
  proof -
    consider "i = ?idx" | "i \<noteq> ?idx" "j = ?idx" | "i \<noteq> ?idx" "j \<noteq> ?idx" by blast
    then have "step c N b b1 \<and> result_ok N (states b1) ?idx i j result"
    proof cases
      case 1
      with first res show ?thesis using step_refl [OF inv] by (simp add: result_ok_def)
    next
      case 2
      with first res show ?thesis using step_refl [OF inv] by (simp add: result_ok_def)
    next
      case 3
      with first have rng: "in_range (states b ! i) (length (states b ! j))"
        and enq: "enqueue c (compose (states b ! i) (states b ! j)) b = Some (Inr (result, b1))"
        by simp_all
      have "length (compose (states b ! i) (states b ! j)) = N" using widths by simp
      from enqueue_step [OF inv this enq] have st: "step c N b b1"
        and k: "states b1 ! result = compose (states b ! i) (states b ! j)" by simp_all
      have ext: "extends b b1" using st by (simp add: step_def)
      have "states b1 ! i = states b ! i" "states b1 ! j = states b ! j"
        using extends_nth [OF ext] i j by simp_all
      with 3 k rng widths res st show ?thesis by (simp add: result_ok_def)
    qed
    then show "step c N b b1" "result_ok N (states b1) ?idx i j result" by simp_all
  qed
  have inv1: "builder_inv N b1" and ext1: "extends b b1" and keep1: "keeps c N b b1"
    using s1 by (simp_all add: step_def)
  have wf1: "mt_wf (lexer_merge_table b1)"
    and n1: "num_states (lexer_merge_table b1) = length (states b1)"
    using inv1 by (simp_all add: builder_inv_def interner_inv_def mt_states_def)
  have i1: "i < length (states b1)" and j1: "j < length (states b1)"
    using i j extends_length [OF ext1] by simp_all
  note gs = mt_get_set [OF wf1 _ _ set, unfolded n1, OF i1 j1]
  have sel: "states b' = states b1" "lexer_merge_table b' = mt" "seen b' = seen b1"
    "identity_state_index b' = identity_state_index b1" "initial_states b' = initial_states b1"
    by (simp_all add: b')
  have idx1: "identity_state_index b1 = ?idx" using ext1 by (simp add: extends_def)
  have inv': "builder_inv N b'"
    using inv1 gs by (simp add: builder_inv_def interner_inv_def mt_states_def sel)
  have ext11: "extends b1 b'" by (simp add: extends_def sel)
  have new: "cell_ok c N b' i j"
    using gs rok by (auto simp: cell_ok_def sel idx1)
  have "keeps c N b1 b'"
    unfolding keeps_def
  proof (intro allI impI)
    fix f s assume a: "f < length (states b1)" "s < length (states b1)" "cell_ok c N b1 f s"
    show "cell_ok c N b' f s"
    proof (cases "(f, s) = (i, j)")
      case True
      with new show ?thesis by simp
    next
      case False
      then have "mt_get (lexer_merge_table b') f s = mt_get (lexer_merge_table b1) f s"
        using gs a by (simp add: sel)
      then show ?thesis using cell_ok_ext [OF ext11 a(1,2) _ a(3)] by simp
    qed
  qed
  with inv' ext11 have "step c N b1 b'" by (simp add: step_def)
  with s1 new show ?thesis using step_trans by blast
qed

text \<open>
  The inner loop, from \<open>j\<close> on: if it returns, row \<open>i\<close> and column \<open>i\<close> of the table are
  filled for every state interned by then.
\<close>

lemma merge_inner_step:
  assumes ret: "merge_inner c0 i0 j0 b0 = Some (Inr b0')"
    and inv: "builder_inv N b0" and i: "i0 < length (states b0)"
    and pre: "\<forall>j'<j0. j' < length (states b0) \<longrightarrow> cell_ok c0 N b0 i0 j' \<and> cell_ok c0 N b0 j' i0"
  shows "step c0 N b0 b0'
       \<and> (\<forall>j'<length (states b0'). cell_ok c0 N b0' i0 j' \<and> cell_ok c0 N b0' j' i0)"
proof -
  let ?P = "\<lambda>c i j (b :: 'a ParallelLexer) (res :: error + 'a ParallelLexer). \<forall>b'. res = Inr b' \<longrightarrow> builder_inv N b
      \<longrightarrow> i < length (states b)
      \<longrightarrow> (\<forall>j'<j. j' < length (states b) \<longrightarrow> cell_ok c N b i j' \<and> cell_ok c N b j' i)
      \<longrightarrow> step c N b b'
          \<and> (\<forall>j'<length (states b'). cell_ok c N b' i j' \<and> cell_ok c N b' j' i)"
  have "?P c0 i0 j0 b0 (Inr b0')"
  proof (rule merge_inner.raw_induct [where P = ?P, OF _ ret])
    fix f :: "constants \<Rightarrow> nat \<Rightarrow> nat \<Rightarrow> 'a ParallelLexer \<Rightarrow> 'a ParallelLexer result"
      and c i j b res
    assume IH: "\<And>c i j b res. f c i j b = Some res \<Longrightarrow> ?P c i j b res"
      and body: "(if j < length (states b)
          then rbind (merge c i j b) (\<lambda>b1. rbind (merge c j i b1) (f c i (Suc j)))
          else Some (Inr b)) = Some res"
    show "?P c i j b res"
    proof (intro allI impI)
      fix b'
      assume res: "res = Inr b'" and inv: "builder_inv N b" and i: "i < length (states b)"
        and pre: "\<forall>j'<j. j' < length (states b) \<longrightarrow> cell_ok c N b i j' \<and> cell_ok c N b j' i"
      show "step c N b b'
          \<and> (\<forall>j'<length (states b'). cell_ok c N b' i j' \<and> cell_ok c N b' j' i)"
      proof (cases "j < length (states b)")
        case False
        with body res have "b' = b" by simp
        with False pre show ?thesis using step_refl [OF inv] by auto
      next
        case True
        with body res obtain b1 b2 where m1: "merge c i j b = Some (Inr b1)"
          and m2: "merge c j i b1 = Some (Inr b2)" and rest: "f c i (Suc j) b2 = Some (Inr b')"
          by (auto simp: rbind_Inr)
        from merge_step [OF inv i True m1] have s1: "step c N b b1" and c1: "cell_ok c N b1 i j"
          by simp_all
        have inv1: "builder_inv N b1" and l1: "length (states b) \<le> length (states b1)"
          using s1 extends_length [of b b1] by (simp_all add: step_def)
        have i1: "i < length (states b1)" and j1: "j < length (states b1)"
          using i True l1 by simp_all
        from merge_step [OF inv1 j1 i1 m2] have s2: "step c N b1 b2" and c2: "cell_ok c N b2 j i"
          by simp_all
        have s02: "step c N b b2" using step_trans [OF s1 s2] .
        have inv2: "builder_inv N b2" and l2: "length (states b1) \<le> length (states b2)"
          using s2 extends_length [of b1 b2] by (simp_all add: step_def)
        have c12: "cell_ok c N b2 i j" using s2 c1 i1 j1 by (simp add: step_def keeps_def)
        have pre2: "\<forall>j'<Suc j. j' < length (states b2)
                      \<longrightarrow> cell_ok c N b2 i j' \<and> cell_ok c N b2 j' i"
        proof (intro allI impI)
          fix j' assume a: "j' < Suc j" "j' < length (states b2)"
          show "cell_ok c N b2 i j' \<and> cell_ok c N b2 j' i"
          proof (cases "j' = j")
            case True
            with c12 c2 show ?thesis by simp
          next
            case False
            with a have lt: "j' < j" by simp
            then have "j' < length (states b)" using True by simp
            with pre lt i s02 show ?thesis by (simp add: step_def keeps_def)
          qed
        qed
        have i2: "i < length (states b2)" using i1 l2 by simp
        from IH [OF rest] inv2 i2 pre2 have "step c N b2 b'"
          "\<forall>j'<length (states b'). cell_ok c N b' i j' \<and> cell_ok c N b' j' i"
          by blast+
        with s02 show ?thesis using step_trans by blast
      qed
    qed
  qed
  with inv i pre show ?thesis by blast
qed

text \<open>The outer loop, from \<open>i\<close> on: if it returns, every cell of the table is filled.\<close>

lemma merge_outer_step:
  assumes ret: "merge_outer c0 i0 b0 = Some (Inr b0')"
    and inv: "builder_inv N b0"
    and pre: "\<forall>a<i0. \<forall>a'<i0. a < length (states b0) \<longrightarrow> a' < length (states b0)
                \<longrightarrow> cell_ok c0 N b0 a a'"
  shows "step c0 N b0 b0'
       \<and> (\<forall>a<length (states b0'). \<forall>a'<length (states b0'). cell_ok c0 N b0' a a')"
proof -
  let ?P = "\<lambda>c i (b :: 'a ParallelLexer) (res :: error + 'a ParallelLexer). \<forall>b'. res = Inr b' \<longrightarrow> builder_inv N b
      \<longrightarrow> (\<forall>a<i. \<forall>a'<i. a < length (states b) \<longrightarrow> a' < length (states b)
                \<longrightarrow> cell_ok c N b a a')
      \<longrightarrow> step c N b b'
          \<and> (\<forall>a<length (states b'). \<forall>a'<length (states b'). cell_ok c N b' a a')"
  have "?P c0 i0 b0 (Inr b0')"
  proof (rule merge_outer.raw_induct [where P = ?P, OF _ ret])
    fix f :: "constants \<Rightarrow> nat \<Rightarrow> 'a ParallelLexer \<Rightarrow> 'a ParallelLexer result"
      and c i b res
    assume IH: "\<And>c i b res. f c i b = Some res \<Longrightarrow> ?P c i b res"
      and body: "(if i < length (states b)
          then rbind (merge_inner c i 0 b) (f c (Suc i))
          else Some (Inr b)) = Some res"
    show "?P c i b res"
    proof (intro allI impI)
      fix b'
      assume res: "res = Inr b'" and inv: "builder_inv N b"
        and pre: "\<forall>a<i. \<forall>a'<i. a < length (states b) \<longrightarrow> a' < length (states b)
                \<longrightarrow> cell_ok c N b a a'"
      show "step c N b b'
          \<and> (\<forall>a<length (states b'). \<forall>a'<length (states b'). cell_ok c N b' a a')"
      proof (cases "i < length (states b)")
        case False
        with body res have "b' = b" by simp
        with False pre show ?thesis using step_refl [OF inv] by auto
      next
        case True
        with body res obtain b1 where m1: "merge_inner c i 0 b = Some (Inr b1)"
          and rest: "f c (Suc i) b1 = Some (Inr b')"
          by (auto simp: rbind_Inr)
        from merge_inner_step [OF m1 inv True] have s1: "step c N b b1"
          and row: "\<forall>j'<length (states b1). cell_ok c N b1 i j' \<and> cell_ok c N b1 j' i"
          by simp_all
        have inv1: "builder_inv N b1" using s1 by (simp add: step_def)
        have pre1: "\<forall>a<Suc i. \<forall>a'<Suc i. a < length (states b1) \<longrightarrow> a' < length (states b1)
                \<longrightarrow> cell_ok c N b1 a a'"
        proof (intro allI impI)
          fix a a' assume a: "a < Suc i" "a' < Suc i" "a < length (states b1)"
            "a' < length (states b1)"
          show "cell_ok c N b1 a a'"
          proof (cases "a = i \<or> a' = i")
            case True
            with row a show ?thesis by auto
          next
            case False
            with a have "a < i" "a' < i" by simp_all
            moreover from this True have "a < length (states b)" "a' < length (states b)"
              by simp_all
            ultimately show ?thesis using pre s1 by (simp add: step_def keeps_def)
          qed
        qed
        from IH [OF rest] inv1 pre1 have "step c N b1 b'"
          "\<forall>a<length (states b'). \<forall>a'<length (states b'). cell_ok c N b' a a'"
          by blast+
        with s1 show ?thesis using step_trans by blast
      qed
    qed
  qed
  with inv pre show ?thesis by blast
qed

section \<open>The steps of the constructor\<close>

subsection \<open>The identity state\<close>

lemma identity_fold:
  "m \<le> length ps \<Longrightarrow>
     length (fold (\<lambda>i ps. ps[i := (ps ! i)\<lparr>result_state := i\<rparr>]) [0..<m] ps) = length ps
     \<and> (\<forall>k<length ps. fold (\<lambda>i ps. ps[i := (ps ! i)\<lparr>result_state := i\<rparr>]) [0..<m] ps ! k
            = (if k < m then (ps ! k)\<lparr>result_state := k\<rparr> else ps ! k))"
proof (induction m)
  case 0
  then show ?case by simp
next
  case (Suc m)
  then show ?case by (auto simp: nth_list_update less_Suc_eq)
qed

lemma length_identity [simp]: "length (identity c N) = N"
  using identity_fold [of N "ParallelState_new c N"]
  by (simp add: identity_def ParallelState_new_def)

lemma nth_identity:
  "s < N \<Longrightarrow> identity c N ! s = \<lparr>result_state = s, produces_lexeme = False\<rparr>"
  using identity_fold [of N "ParallelState_new c N"]
  by (simp add: identity_def ParallelState_new_def Transition_default_def)

lemma in_range_identity: "in_range (identity c N) N"
  by (simp add: in_range_def list_all_length nth_identity)

lemma compose_identity_left: "length ps = N \<Longrightarrow> compose (identity c N) ps = ps"
  by (rule nth_equalityI) (simp_all add: nth_compose nth_identity)

subsection \<open>The final-states loop\<close>

lemma fold_set_final_state_Inl: "fold (set_final_state c dfa) es (Inl e) = Inl e"
  by (induction es) (simp_all add: set_final_state_def)

lemma fold_set_final_state:
  "distinct (map snd es) \<Longrightarrow> fold (set_final_state c dfa) es (Inr fs0) = Inr fs \<Longrightarrow>
     length fs = length fs0
     \<and> (\<forall>(ps, i)\<in>set es. i < length fs0 \<and> START c < length ps
            \<and> result_state (ps ! START c) < dfa_num_states dfa
            \<and> fs ! i = lexeme (dfa ! result_state (ps ! START c)))
     \<and> (\<forall>k<length fs0. k \<notin> snd ` set es \<longrightarrow> fs ! k = fs0 ! k)"
proof (induction es arbitrary: fs0)
  case Nil
  then show ?case by simp
next
  case (Cons entry es)
  obtain ps i where entry: "entry = (ps, i)" by (cases entry)
  let ?ok = "START c < length ps \<and> result_state (ps ! START c) < dfa_num_states dfa
                \<and> i < length fs0"
  have ok: ?ok
  proof (rule ccontr)
    assume "\<not> ?ok"
    then have "set_final_state c dfa entry (Inr fs0) = Inl OutOfBounds"
      by (simp add: set_final_state_def entry)
    with Cons.prems(2) show False by (simp add: fold_set_final_state_Inl)
  qed
  let ?fs1 = "fs0[i := lexeme (dfa ! result_state (ps ! START c))]"
  have one: "set_final_state c dfa entry (Inr fs0) = Inr ?fs1"
    using ok by (simp add: set_final_state_def entry)
  with Cons.prems have rest: "fold (set_final_state c dfa) es (Inr ?fs1) = Inr fs"
    and d: "distinct (map snd es)" and fresh: "i \<notin> snd ` set es"
    by (simp_all add: entry)
  from Cons.IH [OF d rest] have l: "length fs = length fs0"
    and a: "\<forall>(ps, i)\<in>set es. i < length fs0 \<and> START c < length ps
            \<and> result_state (ps ! START c) < dfa_num_states dfa
            \<and> fs ! i = lexeme (dfa ! result_state (ps ! START c))"
    and o: "\<forall>k<length fs0. k \<notin> snd ` set es \<longrightarrow> fs ! k = ?fs1 ! k"
    by simp_all
  have "fs ! i = lexeme (dfa ! result_state (ps ! START c))"
    using o ok fresh by simp
  moreover have "\<forall>k<length fs0. k \<notin> snd ` set (entry # es) \<longrightarrow> fs ! k = fs0 ! k"
    using o by (simp add: entry)
  ultimately show ?case using l a ok by (simp add: entry)
qed

lemma compute_final_states_Inr:
  assumes inv: "interner_inv b" and r: "compute_final_states c dfa b = Inr fs"
  shows "length fs = length (states b)
       \<and> (\<forall>i<length (states b). START c < length (states b ! i)
            \<and> result_state (states b ! i ! START c) < dfa_num_states dfa
            \<and> fs ! i = lexeme (dfa ! result_state (states b ! i ! START c)))"
proof -
  have seen: "seen b = zip (states b) [0..<length (states b)]"
    using inv by (simp add: interner_inv_def)
  have d: "distinct (map snd (seen b))" by (simp add: seen)
  from fold_set_final_state [OF d r [unfolded compute_final_states_def]]
  have l: "length fs = length (seen b)"
    and a: "\<forall>(ps, i)\<in>set (seen b). i < length (seen b) \<and> START c < length ps
            \<and> result_state (ps ! START c) < dfa_num_states dfa
            \<and> fs ! i = lexeme (dfa ! result_state (ps ! START c))"
    by simp_all
  have "\<forall>i<length (states b). (states b ! i, i) \<in> set (seen b)"
    by (auto simp: seen set_zip)
  with a l show ?thesis by (fastforce simp: seen)
qed

subsection \<open>Seeding the initial states\<close>

definition shape :: "nat \<Rightarrow> nat \<Rightarrow> ParallelState list \<Rightarrow> bool" where
  "shape M N initial \<longleftrightarrow> length initial = M \<and> (\<forall>v<M. length (initial ! v) = N)"

text \<open>
  The automaton is deterministic: every transition is on a concrete symbol, and no state
  has two transitions on the same symbol.
\<close>

definition deterministic :: "'l FiniteStateAutomaton \<Rightarrow> bool" where
  "deterministic dfa \<longleftrightarrow>
     (\<forall>st\<in>set dfa. distinct (map fst (transitions st)) \<and> None \<notin> fst ` set (transitions st))"

lemma Transition_update_both:
  "(t :: Transition)\<lparr>result_state := a, produces_lexeme := b\<rparr>
     = \<lparr>result_state = a, produces_lexeme = b\<rparr>"
  by (cases t) simp

lemma fold_seed_transition_Inl: "fold (seed_transition src) ts (Inl e) = Inl e"
  by (induction ts) (simp_all add: seed_transition_def)

lemma seed_transition_Inr:
  assumes "seed_transition src tr (Inr initial) = Inr initial'"
  obtains v dst pl where "tr = (Some v, dst, pl)" "v < length initial"
    "src < length (initial ! v)"
    "initial' = initial[v := (initial ! v)[src :=
                  \<lparr>result_state = dst, produces_lexeme = pl\<rparr>]]"
proof -
  obtain symbol dst pl where tr: "tr = (symbol, dst, pl)" by (cases tr)
  with assms obtain v where v: "symbol = Some v"
    by (cases symbol) (simp_all add: seed_transition_def)
  from assms have "v < length initial \<and> src < length (initial ! v)"
    by (simp add: seed_transition_def tr v split: if_splits)
  moreover from this assms
  have "initial' = initial[v := (initial ! v)[src :=
                  \<lparr>result_state = dst, produces_lexeme = pl\<rparr>]]"
    by (auto simp: seed_transition_def tr v Transition_update_both)
  ultimately show thesis using that tr v by blast
qed

lemma fold_seed_transition_shape:
  "fold (seed_transition src) ts (Inr initial) = Inr initial' \<Longrightarrow> shape M N initial
     \<Longrightarrow> shape M N initial'"
proof (induction ts arbitrary: initial)
  case Nil
  then show ?case by simp
next
  case (Cons tr ts)
  from Cons.prems(1) obtain initial1 where
    one: "seed_transition src tr (Inr initial) = Inr initial1"
    and rest: "fold (seed_transition src) ts (Inr initial1) = Inr initial'"
    by (cases "seed_transition src tr (Inr initial)")
       (simp_all add: fold_seed_transition_Inl)
  from one obtain v dst pl where "v < length initial"
    "initial1 = initial[v := (initial ! v)[src :=
                  \<lparr>result_state = dst, produces_lexeme = pl\<rparr>]]"
    by (rule seed_transition_Inr)
  with Cons.prems(2) have "shape M N initial1"
    by (auto simp: shape_def nth_list_update)
  with Cons.IH [OF rest] show ?case by simp
qed

lemma fold_seed_transition_values:
  "fold (seed_transition src) ts (Inr initial) = Inr initial' \<Longrightarrow> distinct (map fst ts)
     \<Longrightarrow> shape M N initial \<Longrightarrow>
     (\<forall>v<M. \<forall>s<N. initial' ! v ! s =
        (if s = src
         then (case find (\<lambda>tr. fst tr = Some v) ts of
                 Some tr \<Rightarrow> \<lparr>result_state = fst (snd tr), produces_lexeme = snd (snd tr)\<rparr>
               | None \<Rightarrow> initial ! v ! s)
         else initial ! v ! s))"
proof (induction ts arbitrary: initial)
  case Nil
  then show ?case by simp
next
  case (Cons tr ts)
  from Cons.prems(1) obtain initial1 where
    one: "seed_transition src tr (Inr initial) = Inr initial1"
    and rest: "fold (seed_transition src) ts (Inr initial1) = Inr initial'"
    by (cases "seed_transition src tr (Inr initial)")
       (simp_all add: fold_seed_transition_Inl)
  from one obtain v0 dst pl where tr: "tr = (Some v0, dst, pl)" and v0: "v0 < length initial"
    and src: "src < length (initial ! v0)"
    and i1: "initial1 = initial[v0 := (initial ! v0)[src :=
                  \<lparr>result_state = dst, produces_lexeme = pl\<rparr>]]"
    by (rule seed_transition_Inr)
  have sh1: "shape M N initial1"
    using Cons.prems(3) v0 by (auto simp: i1 shape_def nth_list_update)
  have d: "distinct (map fst ts)" and fresh: "Some v0 \<notin> fst ` set ts"
    using Cons.prems(2) by (simp_all add: tr)
  have none: "find (\<lambda>tr. fst tr = Some v0) ts = None"
    using fresh by (force simp: find_None_iff)
  note IH = Cons.IH [OF rest d sh1]
  show ?case
  proof (intro allI impI)
    fix v s assume v: "v < M" and s: "s < N"
    have M: "length initial = M" using Cons.prems(3) by (simp add: shape_def)
    from IH v s have *: "initial' ! v ! s =
        (if s = src
         then (case find (\<lambda>tr. fst tr = Some v) ts of
                 Some tr \<Rightarrow> \<lparr>result_state = fst (snd tr), produces_lexeme = snd (snd tr)\<rparr>
               | None \<Rightarrow> initial1 ! v ! s)
         else initial1 ! v ! s)"
      by blast
    show "initial' ! v ! s =
        (if s = src
         then (case find (\<lambda>tr. fst tr = Some v) (tr # ts) of
                 Some tr \<Rightarrow> \<lparr>result_state = fst (snd tr), produces_lexeme = snd (snd tr)\<rparr>
               | None \<Rightarrow> initial ! v ! s)
         else initial ! v ! s)"
    proof (cases "v = v0")
      case True
      then show ?thesis using * none v0 src by (simp add: tr i1)
    next
      case False
      then have "initial1 ! v = initial ! v" by (simp add: i1)
      with False show ?thesis using * by (simp add: tr split: option.splits)
    qed
  qed
qed

lemma seed_rows:
  assumes sh: "shape M N initial0"
  shows "fold (\<lambda>src. fold (seed_transition src) (transitions (dfa ! src))) [0..<m] (Inr initial0)
           = Inr initial \<Longrightarrow>
         shape M N initial
         \<and> ((\<forall>src<m. distinct (map fst (transitions (dfa ! src)))) \<longrightarrow>
              (\<forall>v<M. \<forall>s<N. initial ! v ! s =
                 (if s < m
                  then (case find (\<lambda>tr. fst tr = Some v) (transitions (dfa ! s)) of
                          Some tr \<Rightarrow> \<lparr>result_state = fst (snd tr), produces_lexeme = snd (snd tr)\<rparr>
                        | None \<Rightarrow> initial0 ! v ! s)
                  else initial0 ! v ! s)))"
proof (induction m arbitrary: initial)
  case 0
  with sh show ?case by simp
next
  case (Suc m)
  let ?g = "\<lambda>src. fold (seed_transition src) (transitions (dfa ! src))"
  from Suc.prems obtain initial1 where
    first: "fold ?g [0..<m] (Inr initial0) = Inr initial1"
    and last: "fold (seed_transition m) (transitions (dfa ! m)) (Inr initial1) = Inr initial"
    by (cases "fold ?g [0..<m] (Inr initial0)") (simp_all add: fold_seed_transition_Inl)
  from Suc.IH [OF first] have sh1: "shape M N initial1"
    and v1: "(\<forall>src<m. distinct (map fst (transitions (dfa ! src)))) \<longrightarrow>
              (\<forall>v<M. \<forall>s<N. initial1 ! v ! s =
                 (if s < m
                  then (case find (\<lambda>tr. fst tr = Some v) (transitions (dfa ! s)) of
                          Some tr \<Rightarrow> \<lparr>result_state = fst (snd tr), produces_lexeme = snd (snd tr)\<rparr>
                        | None \<Rightarrow> initial0 ! v ! s)
                  else initial0 ! v ! s))"
    by simp_all
  have sh2: "shape M N initial" by (rule fold_seed_transition_shape [OF last sh1])
  have "\<forall>v<M. \<forall>s<N. initial ! v ! s =
                 (if s < Suc m
                  then (case find (\<lambda>tr. fst tr = Some v) (transitions (dfa ! s)) of
                          Some tr \<Rightarrow> \<lparr>result_state = fst (snd tr), produces_lexeme = snd (snd tr)\<rparr>
                        | None \<Rightarrow> initial0 ! v ! s)
                  else initial0 ! v ! s)"
    if d: "\<forall>src<Suc m. distinct (map fst (transitions (dfa ! src)))"
  proof (intro allI impI)
    fix v s assume v: "v < M" and s: "s < N"
    from d have dm: "distinct (map fst (transitions (dfa ! m)))" by simp
    from fold_seed_transition_values [OF last dm sh1] v s
    have a: "initial ! v ! s =
        (if s = m
         then (case find (\<lambda>tr. fst tr = Some v) (transitions (dfa ! m)) of
                 Some tr \<Rightarrow> \<lparr>result_state = fst (snd tr), produces_lexeme = snd (snd tr)\<rparr>
               | None \<Rightarrow> initial1 ! v ! s)
         else initial1 ! v ! s)"
      by blast
    from v1 d v s have b: "initial1 ! v ! s =
                 (if s < m
                  then (case find (\<lambda>tr. fst tr = Some v) (transitions (dfa ! s)) of
                          Some tr \<Rightarrow> \<lparr>result_state = fst (snd tr), produces_lexeme = snd (snd tr)\<rparr>
                        | None \<Rightarrow> initial0 ! v ! s)
                  else initial0 ! v ! s)"
      by simp
    show "initial ! v ! s =
                 (if s < Suc m
                  then (case find (\<lambda>tr. fst tr = Some v) (transitions (dfa ! s)) of
                          Some tr \<Rightarrow> \<lparr>result_state = fst (snd tr), produces_lexeme = snd (snd tr)\<rparr>
                        | None \<Rightarrow> initial0 ! v ! s)
                  else initial0 ! v ! s)"
    proof (cases "s = m")
      case True
      then show ?thesis using a b by (simp split: option.splits)
    next
      case False
      then show ?thesis using a b by (simp add: less_Suc_eq)
    qed
  qed
  with sh2 show ?case by blast
qed

lemma seed_initial_states_Inr:
  assumes r: "seed_initial_states c dfa = Inr initial"
  shows "shape (MAX_SYM c + 1) (dfa_num_states dfa) initial
       \<and> (deterministic dfa \<longrightarrow>
            (\<forall>v\<le>MAX_SYM c. \<forall>s<dfa_num_states dfa. initial ! v ! s =
               (case find (\<lambda>tr. fst tr = Some v) (transitions (dfa ! s)) of
                  Some tr \<Rightarrow> \<lparr>result_state = fst (snd tr), produces_lexeme = snd (snd tr)\<rparr>
                | None \<Rightarrow> Transition_default c)))"
proof -
  let ?N = "dfa_num_states dfa" and ?M = "MAX_SYM c + 1"
  let ?init0 = "replicate ?M (ParallelState_new c ?N)"
  have sh0: "shape ?M ?N ?init0"
    by (simp add: shape_def ParallelState_new_def del: replicate.simps)
  note rows = seed_rows [OF sh0, of dfa ?N initial, OF r [unfolded seed_initial_states_def]]
  have sh: "shape ?M ?N initial" using rows by simp
  have vals: "\<forall>v\<le>MAX_SYM c. \<forall>s<?N. initial ! v ! s =
               (case find (\<lambda>tr. fst tr = Some v) (transitions (dfa ! s)) of
                  Some tr \<Rightarrow> \<lparr>result_state = fst (snd tr), produces_lexeme = snd (snd tr)\<rparr>
                | None \<Rightarrow> Transition_default c)"
    if det: "deterministic dfa"
  proof (intro allI impI)
    fix v s assume v: "v \<le> MAX_SYM c" and s: "s < ?N"
    have "\<forall>src<?N. distinct (map fst (transitions (dfa ! src)))"
      using det by (simp add: deterministic_def dfa_num_states_def)
    with rows v s have "initial ! v ! s =
                 (if s < ?N
                  then (case find (\<lambda>tr. fst tr = Some v) (transitions (dfa ! s)) of
                          Some tr \<Rightarrow> \<lparr>result_state = fst (snd tr), produces_lexeme = snd (snd tr)\<rparr>
                        | None \<Rightarrow> ?init0 ! v ! s)
                  else ?init0 ! v ! s)"
      by (simp add: less_Suc_eq_le)
    moreover have "?init0 ! v ! s = Transition_default c"
      using v s by (simp add: ParallelState_new_def del: replicate.simps)
    ultimately show "initial ! v ! s =
               (case find (\<lambda>tr. fst tr = Some v) (transitions (dfa ! s)) of
                  Some tr \<Rightarrow> \<lparr>result_state = fst (snd tr), produces_lexeme = snd (snd tr)\<rparr>
                | None \<Rightarrow> Transition_default c)"
      using s by (simp only: if_True)
  qed
  show ?thesis using sh vals by blast
qed

subsection \<open>Interning the initial states\<close>

lemma Transition_update_both':
  "(t :: Transition)\<lparr>produces_lexeme := b, result_state := a\<rparr>
     = \<lparr>result_state = a, produces_lexeme = b\<rparr>"
  by (cases t) simp

lemma builder_inv_initial_states [simp]:
  "builder_inv N (b\<lparr>initial_states := x\<rparr>) = builder_inv N b"
  by (simp add: builder_inv_def interner_inv_def)

lemma builder_inv_identity_state_index [simp]:
  "builder_inv N (b\<lparr>identity_state_index := x\<rparr>) = builder_inv N b"
  by (simp add: builder_inv_def interner_inv_def)

lemma builder_inv_final_states [simp]:
  "builder_inv N (b\<lparr>final_states := x\<rparr>) = builder_inv N b"
  by (simp add: builder_inv_def interner_inv_def)

lemma enqueue_initial_Inr:
  assumes sh: "\<forall>v<length initial. length (initial ! v) = N"
  shows "enqueue_initial c initial symbol n b = Some (Inr b') \<Longrightarrow> builder_inv N b
     \<Longrightarrow> symbol + n = length initial \<Longrightarrow> length (initial_states b) = length initial
     \<Longrightarrow> builder_inv N b' \<and> length (initial_states b') = length initial
         \<and> (\<exists>xs. states b' = states b @ xs)
         \<and> (0 < n \<longrightarrow> START c < N)
         \<and> (\<forall>v<symbol. initial_states b' ! v = initial_states b ! v)
         \<and> (\<forall>v. symbol \<le> v \<and> v < length initial \<longrightarrow>
               (\<exists>k<length (states b').
                  initial_states b' ! v
                    = \<lparr>result_state = k,
                       produces_lexeme = produces_lexeme (initial ! v ! START c)\<rparr>
                  \<and> states b' ! k = initial ! v))"
proof (induction n arbitrary: symbol b)
  case 0
  then show ?case by auto
next
  case (Suc n)
  let ?state = "initial ! symbol"
  let ?p = "produces_lexeme (?state ! START c)"
  let ?ba = "b\<lparr>initial_states := (initial_states b)[symbol :=
                      (initial_states b ! symbol)\<lparr>produces_lexeme := ?p\<rparr>]\<rparr>"
  have sym: "symbol < length initial" using Suc.prems(3) by simp
  then have w: "length ?state = N" using sh by simp
  from Suc.prems(1) have start: "START c < N"
    using w by (simp add: Let_def split: if_splits)
  with Suc.prems(1) w Suc.prems(4) sym obtain k b1 where
    enq: "enqueue c ?state ?ba = Some (Inr (k, b1))"
    and rest: "enqueue_initial c initial (Suc symbol) n
                 (b1\<lparr>initial_states := (initial_states b1)[symbol :=
                            (initial_states b1 ! symbol)\<lparr>result_state := k\<rparr>]\<rparr>) = Some (Inr b')"
    by (auto simp: Let_def rbind_Inr)
  let ?bb = "b1\<lparr>initial_states := (initial_states b1)[symbol :=
                            (initial_states b1 ! symbol)\<lparr>result_state := k\<rparr>]\<rparr>"
  have inva: "builder_inv N ?ba" using Suc.prems(2) by simp
  from enqueue_step [OF inva w enq] have st: "step c N ?ba b1"
    and k: "k < length (states b1)" and sk: "states b1 ! k = ?state"
    by simp_all
  from st have inv1: "builder_inv N b1" and ext: "extends ?ba b1" by (simp_all add: step_def)
  from ext obtain xs where xs: "states b1 = states b @ xs"
    and is1: "initial_states b1 = (initial_states b)[symbol :=
                      (initial_states b ! symbol)\<lparr>produces_lexeme := ?p\<rparr>]"
    by (auto simp: extends_def)
  have isb: "initial_states ?bb = (initial_states b)[symbol :=
                \<lparr>result_state = k, produces_lexeme = ?p\<rparr>]"
    using sym Suc.prems(4) by (simp add: is1 Transition_update_both')
  have "builder_inv N ?bb" using inv1 by simp
  moreover have "Suc symbol + n = length initial" using Suc.prems(3) by simp
  moreover have "length (initial_states ?bb) = length initial"
    using Suc.prems(4) by (simp add: isb)
  ultimately have IH: "builder_inv N b' \<and> length (initial_states b') = length initial
         \<and> (\<exists>xs. states b' = states ?bb @ xs)
         \<and> (\<forall>v<Suc symbol. initial_states b' ! v = initial_states ?bb ! v)
         \<and> (\<forall>v. Suc symbol \<le> v \<and> v < length initial \<longrightarrow>
               (\<exists>k<length (states b').
                  initial_states b' ! v
                    = \<lparr>result_state = k,
                       produces_lexeme = produces_lexeme (initial ! v ! START c)\<rparr>
                  \<and> states b' ! k = initial ! v))"
    using Suc.IH [OF rest] by blast
  then obtain ys where ys: "states b' = states b1 @ ys" by auto
  have pre: "\<exists>zs. states b' = states b @ zs" by (simp add: ys xs)
  have old: "\<forall>v<symbol. initial_states b' ! v = initial_states b ! v"
    using IH by (simp add: isb)
  have here: "\<exists>k<length (states b').
                  initial_states b' ! symbol
                    = \<lparr>result_state = k,
                       produces_lexeme = produces_lexeme (initial ! symbol ! START c)\<rparr>
                  \<and> states b' ! k = initial ! symbol"
  proof (intro exI [of _ k] conjI)
    show "k < length (states b')" using k by (simp add: ys)
    have "initial_states b' ! symbol = initial_states ?bb ! symbol" using IH by simp
    then show "initial_states b' ! symbol
                    = \<lparr>result_state = k,
                       produces_lexeme = produces_lexeme (initial ! symbol ! START c)\<rparr>"
      using sym Suc.prems(4) by (simp add: isb)
    show "states b' ! k = initial ! symbol" using k sk by (simp add: ys nth_append)
  qed
  have all: "\<forall>v. symbol \<le> v \<and> v < length initial \<longrightarrow>
               (\<exists>k<length (states b').
                  initial_states b' ! v
                    = \<lparr>result_state = k,
                       produces_lexeme = produces_lexeme (initial ! v ! START c)\<rparr>
                  \<and> states b' ! k = initial ! v)"
  proof (intro allI impI)
    fix v assume v: "symbol \<le> v \<and> v < length initial"
    show "\<exists>k<length (states b').
                  initial_states b' ! v
                    = \<lparr>result_state = k,
                       produces_lexeme = produces_lexeme (initial ! v ! START c)\<rparr>
                  \<and> states b' ! k = initial ! v"
    proof (cases "v = symbol")
      case True
      with here show ?thesis by simp
    next
      case False
      with v have "Suc symbol \<le> v \<and> v < length initial" by simp
      with IH show ?thesis by blast
    qed
  qed
  show ?case using IH pre start old all by blast
qed

subsection \<open>The completed artifact\<close>

text \<open>
  What holds of the constructor state when the constructor returns: the invariants, the
  identity state at \<open>identity_state_index\<close>, every cell of the table as \<open>merge\<close> wrote it,
  the per-symbol entries, and the final-states table.
\<close>

definition artifact_ok :: "constants \<Rightarrow> 'l FiniteStateAutomaton \<Rightarrow> 'l ParallelLexer \<Rightarrow> bool" where
  "artifact_ok c dfa b \<longleftrightarrow>
     builder_inv (dfa_num_states dfa) b
     \<and> START c < dfa_num_states dfa
     \<and> identity_state_index b < length (states b)
     \<and> states b ! identity_state_index b = identity c (dfa_num_states dfa)
     \<and> (\<forall>i<length (states b). \<forall>j<length (states b). cell_ok c (dfa_num_states dfa) b i j)
     \<and> (\<exists>initial. seed_initial_states c dfa = Inr initial
           \<and> length (initial_states b) = MAX_SYM c + 1
           \<and> (\<forall>v\<le>MAX_SYM c. \<exists>k<length (states b).
                 initial_states b ! v
                   = \<lparr>result_state = k,
                      produces_lexeme = produces_lexeme (initial ! v ! START c)\<rparr>
                 \<and> states b ! k = initial ! v))
     \<and> length (final_states b) = length (states b)
     \<and> (\<forall>i<length (states b).
           result_state (states b ! i ! START c) < dfa_num_states dfa
           \<and> final_states b ! i = lexeme (dfa ! result_state (states b ! i ! START c)))"

lemma cell_ok_final_states [simp]:
  "cell_ok c N (b\<lparr>final_states := x\<rparr>) i j = cell_ok c N b i j"
  by (simp add: cell_ok_def)

lemma builder_inv_new: "builder_inv N ParallelLexer_new"
  using interner_inv_new
  by (simp add: builder_inv_def ParallelLexer_new_def MergeTable_new_def mt_wf_def)

lemma ctor_artifact_ok:
  assumes ret: "ParallelLexer_ctor c dfa = Some (Inr b)"
  shows "artifact_ok c dfa b"
proof -
  let ?N = "dfa_num_states dfa"
  from ret obtain initial where seed: "seed_initial_states c dfa = Inr initial"
    and r1: "rbind (enqueue_initial c initial 0 (length initial)
                   (ParallelLexer_new\<lparr>initial_states :=
                      replicate (length initial) (Transition_default c)\<rparr>))
            (\<lambda>b1. rbind (enqueue c (identity c ?N) b1)
               (\<lambda>(k, b2). rbind (merge_outer c 0 (b2\<lparr>identity_state_index := k\<rparr>))
                  (\<lambda>b3. case compute_final_states c dfa b3 of
                           Inl e \<Rightarrow> Some (Inl e)
                         | Inr fs \<Rightarrow> Some (Inr (b3\<lparr>final_states := fs\<rparr>))))) = Some (Inr b)"
    by (cases "seed_initial_states c dfa") (simp_all add: ParallelLexer_ctor_def)
  from r1 obtain b1 where
    e1: "enqueue_initial c initial 0 (length initial)
               (ParallelLexer_new\<lparr>initial_states :=
                  replicate (length initial) (Transition_default c)\<rparr>) = Some (Inr b1)"
    and r2: "rbind (enqueue c (identity c ?N) b1)
               (\<lambda>(k, b2). rbind (merge_outer c 0 (b2\<lparr>identity_state_index := k\<rparr>))
                  (\<lambda>b3. case compute_final_states c dfa b3 of
                           Inl e \<Rightarrow> Some (Inl e)
                         | Inr fs \<Rightarrow> Some (Inr (b3\<lparr>final_states := fs\<rparr>)))) = Some (Inr b)"
    unfolding rbind_Inr [of "enqueue_initial c initial 0 (length initial) _"] by blast
  from r2 obtain k b2 where e2: "enqueue c (identity c ?N) b1 = Some (Inr (k, b2))"
    and r3: "rbind (merge_outer c 0 (b2\<lparr>identity_state_index := k\<rparr>))
                  (\<lambda>b3. case compute_final_states c dfa b3 of
                           Inl e \<Rightarrow> Some (Inl e)
                         | Inr fs \<Rightarrow> Some (Inr (b3\<lparr>final_states := fs\<rparr>))) = Some (Inr b)"
    unfolding rbind_Inr [of "enqueue c (identity c ?N) b1"] by auto
  from r3 obtain b3 where
    sat: "merge_outer c 0 (b2\<lparr>identity_state_index := k\<rparr>) = Some (Inr b3)"
    and r4: "(case compute_final_states c dfa b3 of
                           Inl e \<Rightarrow> Some (Inl e)
                         | Inr fs \<Rightarrow> Some (Inr (b3\<lparr>final_states := fs\<rparr>))) = Some (Inr b)"
    unfolding rbind_Inr [of "merge_outer c 0 _"] by blast
  from r4 obtain fs where fin: "compute_final_states c dfa b3 = Inr fs"
    and b: "b = b3\<lparr>final_states := fs\<rparr>"
    by (cases "compute_final_states c dfa b3") auto
  from seed_initial_states_Inr [OF seed] have sh: "shape (MAX_SYM c + 1) ?N initial" by simp
  then have len: "length initial = MAX_SYM c + 1"
    and widths: "\<forall>v<length initial. length (initial ! v) = ?N"
    by (simp_all add: shape_def)
  let ?b0 = "ParallelLexer_new\<lparr>initial_states :=
                  replicate (length initial) (Transition_default c)\<rparr> :: 'a ParallelLexer"
  have inv0: "builder_inv ?N ?b0" using builder_inv_new by simp
  from enqueue_initial_Inr [OF widths e1 inv0] len
  have inv1: "builder_inv ?N b1" and l1: "length (initial_states b1) = MAX_SYM c + 1"
    and start: "START c < ?N"
    and init1: "\<forall>v. v < length initial \<longrightarrow>
               (\<exists>k<length (states b1).
                  initial_states b1 ! v
                    = \<lparr>result_state = k,
                       produces_lexeme = produces_lexeme (initial ! v ! START c)\<rparr>
                  \<and> states b1 ! k = initial ! v)"
    by simp_all
  from enqueue_step [OF inv1 length_identity e2] have st2: "step c ?N b1 b2"
    and k: "k < length (states b2)" and sk: "states b2 ! k = identity c ?N"
    by simp_all
  let ?b2 = "b2\<lparr>identity_state_index := k\<rparr>"
  have inv2: "builder_inv ?N ?b2" using st2 by (simp add: step_def)
  from merge_outer_step [OF sat inv2] have st3: "step c ?N ?b2 b3"
    and cells: "\<forall>a<length (states b3). \<forall>a'<length (states b3). cell_ok c ?N b3 a a'"
    by simp_all
  have inv3: "builder_inv ?N b3" and ext3: "extends ?b2 b3" using st3 by (simp_all add: step_def)
  have ext2: "extends b1 b2" using st2 by (simp add: step_def)
  have idx3: "identity_state_index b3 = k" using ext3 by (simp add: extends_def)
  have is3: "initial_states b3 = initial_states b1"
    using ext3 ext2 by (simp add: extends_def)
  have nth3: "states b3 ! i = states b2 ! i" if "i < length (states b2)" for i
    using extends_nth [OF ext3, of i] that by simp
  have nth2: "states b2 ! i = states b1 ! i" if "i < length (states b1)" for i
    using extends_nth [OF ext2, of i] that by simp
  have le2: "length (states b1) \<le> length (states b2)" using extends_length [OF ext2] .
  have le3: "length (states b2) \<le> length (states b3)" using extends_length [OF ext3] by simp
  have i3: "interner_inv b3" using inv3 by (simp add: builder_inv_def)
  from compute_final_states_Inr [OF i3 fin] have lf: "length fs = length (states b3)"
    and fv: "\<forall>i<length (states b3).
            result_state (states b3 ! i ! START c) < ?N
            \<and> fs ! i = lexeme (dfa ! result_state (states b3 ! i ! START c))"
    by simp_all
  have initial_ok: "\<forall>v\<le>MAX_SYM c. \<exists>k<length (states b3).
                 initial_states b3 ! v
                   = \<lparr>result_state = k,
                      produces_lexeme = produces_lexeme (initial ! v ! START c)\<rparr>
                 \<and> states b3 ! k = initial ! v"
  proof (intro allI impI)
    fix v assume "v \<le> MAX_SYM c"
    then have "v < length initial" using len by simp
    with init1 obtain k' where k': "k' < length (states b1)"
      "initial_states b1 ! v
         = \<lparr>result_state = k', produces_lexeme = produces_lexeme (initial ! v ! START c)\<rparr>"
      "states b1 ! k' = initial ! v"
      by blast
    have "states b3 ! k' = initial ! v" using k' nth2 [of k'] nth3 [of k'] le2 by simp
    moreover have "k' < length (states b3)" using k' le2 le3 by simp
    ultimately show "\<exists>k<length (states b3).
                 initial_states b3 ! v
                   = \<lparr>result_state = k,
                      produces_lexeme = produces_lexeme (initial ! v ! START c)\<rparr>
                 \<and> states b3 ! k = initial ! v"
      using k'(2) is3 by auto
  qed
  have sel: "states b = states b3" "identity_state_index b = k"
    "initial_states b = initial_states b3" "final_states b = fs"
    by (simp_all add: b idx3)
  show ?thesis
    unfolding artifact_ok_def sel
    using inv3 start k le3 sk nth3 [of k] cells seed l1 is3 initial_ok lf fv
    by (simp add: b)
qed

text \<open>In particular the interner invariant holds of the state the constructor returns.\<close>

lemma ctor_interner_inv:
  "ParallelLexer_ctor c dfa = Some (Inr b) \<Longrightarrow> interner_inv b"
  using ctor_artifact_ok [of c dfa b] by (simp add: artifact_ok_def builder_inv_def)

section \<open>The constructor returns\<close>

text \<open>
  The capacity loop of \<open>resize\<close> returns when the growth factor is at least two and the
  minimum size is positive.
\<close>

definition growable :: "constants \<Rightarrow> bool" where
  "growable c \<longleftrightarrow> 2 \<le> GROW_FACTOR c \<and> 0 < MIN_SIZE c"

lemma rbind_Some_Inr [simp]: "rbind (Some (Inr x)) f = f x"
  by (simp add: rbind_def)

lemma resize_returns:
  assumes wf: "mt_wf mt" and g: "growable c"
  shows "\<exists>mt'. resize c mt new_K = Some (Inr mt')"
proof (cases "new_K \<le> capacity mt")
  case True
  then show ?thesis by (simp add: resize_small)
next
  case False
  then have big: "capacity mt < new_K" by simp
  have "2 \<le> GROW_FACTOR c" "0 < max (MIN_SIZE c) (capacity mt)"
    using g by (auto simp: growable_def max_def)
  from grow_capacity_terminates [OF this, of new_K] obtain nc where
    "grow_capacity (GROW_FACTOR c) (max (MIN_SIZE c) (capacity mt)) new_K = Some nc"
    by blast
  from resize_grow [OF wf big this] show ?thesis by blast
qed

lemma enqueue_returns:
  assumes inv: "builder_inv N b" and g: "growable c"
  shows "\<exists>k b'. enqueue c ps b = Some (Inr (k, b'))"
proof (cases "map_of (seen b) ps")
  case (Some k)
  then show ?thesis by (simp add: enqueue_def)
next
  case None
  have "mt_wf (lexer_merge_table b)" using inv by (simp add: builder_inv_def)
  from resize_returns [OF this g, of "length (states b) + 1"] obtain mt where
    "resize c (lexer_merge_table b) (length (states b) + 1) = Some (Inr mt)"
    by blast
  with None show ?thesis by (simp add: enqueue_def Let_def)
qed

text \<open>
  The saturation loop is bounded because the interned states are pairwise different and
  all of them map automaton states to automaton states: there are finitely many such
  states of width \<open>N\<close>.
\<close>

definition sat_inv :: "nat \<Rightarrow> 'l ParallelLexer \<Rightarrow> bool" where
  "sat_inv N b \<longleftrightarrow> builder_inv N b \<and> (\<forall>ps\<in>set (states b). in_range ps N)"

definition bound :: "nat \<Rightarrow> nat" where
  "bound N = card {ps :: ParallelState. length ps = N \<and> in_range ps N}"

lemma finite_transitions: "finite {t :: Transition. result_state t < N}"
proof (rule finite_subset)
  let ?f = "\<lambda>(r, p). \<lparr>result_state = r, produces_lexeme = p\<rparr>"
  show "{t :: Transition. result_state t < N} \<subseteq> ?f ` ({..<N} \<times> (UNIV :: bool set))"
  proof
    fix t :: Transition assume "t \<in> {t. result_state t < N}"
    then have "(result_state t, produces_lexeme t) \<in> {..<N} \<times> (UNIV :: bool set)" by simp
    moreover have "t = ?f (result_state t, produces_lexeme t)" by (cases t) simp
    ultimately show "t \<in> ?f ` ({..<N} \<times> (UNIV :: bool set))" by (rule rev_image_eqI)
  qed
  show "finite (?f ` ({..<N} \<times> (UNIV :: bool set)))" by simp
qed

lemma finite_in_range: "finite {ps :: ParallelState. length ps = N \<and> in_range ps N}"
proof (rule finite_subset)
  show "{ps :: ParallelState. length ps = N \<and> in_range ps N}
          \<subseteq> {ps. set ps \<subseteq> {t. result_state t < N} \<and> length ps = N}"
    by (auto simp: in_range_def list_all_iff)
  show "finite {ps. set ps \<subseteq> {t :: Transition. result_state t < N} \<and> length ps = N}"
    using finite_transitions by (rule finite_lists_length_eq)
qed

lemma length_states_le_bound:
  assumes "sat_inv N b"
  shows "length (states b) \<le> bound N"
proof -
  have d: "distinct (states b)"
    using assms by (simp add: sat_inv_def builder_inv_def interner_inv_def)
  have "set (states b) \<subseteq> {ps. length ps = N \<and> in_range ps N}"
    using assms by (auto simp: sat_inv_def builder_inv_def)
  then have "card (set (states b)) \<le> bound N"
    unfolding bound_def using finite_in_range by (intro card_mono)
  then show ?thesis using d by (simp add: distinct_card)
qed

lemma in_range_compose:
  assumes "in_range P (length Q)" "in_range Q N"
  shows "in_range (compose P Q) N"
  unfolding in_range_def list_all_length
proof (intro allI impI)
  fix s assume "s < length (compose P Q)"
  then have s: "s < length P" by simp
  then have "result_state (P ! s) < length Q" using assms(1) by (rule in_range_nth [rotated])
  then have "result_state (Q ! result_state (P ! s)) < N"
    using assms(2) by (rule in_range_nth [rotated])
  then show "result_state (compose P Q ! s) < N" using s by (simp add: nth_compose)
qed

lemma merge_returns:
  assumes inv: "sat_inv N b" and g: "growable c" and start: "START c < N"
    and i: "i < length (states b)" and j: "j < length (states b)"
  shows "\<exists>b'. merge c i j b = Some (Inr b') \<and> sat_inv N b'"
proof -
  have binv: "builder_inv N b" and rng: "\<forall>ps\<in>set (states b). in_range ps N"
    using inv by (simp_all add: sat_inv_def)
  have wi: "length (states b ! i) = N" and wj: "length (states b ! j) = N"
    using binv i j by (simp_all add: builder_inv_def)
  have ri: "in_range (states b ! i) N" and rj: "in_range (states b ! j) N"
    using rng i j by simp_all
  let ?ps = "compose (states b ! i) (states b ! j)"
  have first: "\<exists>result b1.
      (if i = identity_state_index b then Some (Inr (j, b))
        else if j = identity_state_index b then Some (Inr (i, b))
        else if i < length (states b) \<and> j < length (states b)
        then (case ParallelState_merge (states b ! i) (states b ! j) of
                Inl e \<Rightarrow> Some (Inl e)
              | Inr ps \<Rightarrow> enqueue c ps b)
        else Some (Inl OutOfBounds)) = Some (Inr (result, b1))
      \<and> result < length (states b1) \<and> builder_inv N b1
      \<and> length (states b) \<le> length (states b1)
      \<and> set (states b1) \<subseteq> insert ?ps (set (states b))"
  proof -
    consider "i = identity_state_index b" | "i \<noteq> identity_state_index b" "j = identity_state_index b"
      | "i \<noteq> identity_state_index b" "j \<noteq> identity_state_index b" by blast
    then show ?thesis
    proof cases
      case 1
      with j binv show ?thesis by auto
    next
      case 2
      with i binv show ?thesis by auto
    next
      case 3
      have m: "ParallelState_merge (states b ! i) (states b ! j) = Inr ?ps"
        using ri by (simp add: merge_in_range wj)
      from enqueue_returns [OF binv g, of ?ps] obtain k b1 where
        e: "enqueue c ?ps b = Some (Inr (k, b1))" by blast
      have "length ?ps = N" using wi by simp
      from enqueue_step [OF binv this e] have st: "step c N b b1"
        and k: "k < length (states b1)" by simp_all
      have ext: "extends b b1" and inv1: "builder_inv N b1" using st by (simp_all add: step_def)
      have sub: "set (states b1) \<subseteq> insert ?ps (set (states b))"
      proof (cases "?ps \<in> set (states b)")
        case True
        have "interner_inv b" using binv by (simp add: builder_inv_def)
        from enqueue_seen [OF this True, of c] e have "b1 = b" by simp
        then show ?thesis by auto
      next
        case False
        have "interner_inv b" using binv by (simp add: builder_inv_def)
        from enqueue_fresh [OF this False e] have "states b1 = states b @ [?ps]" by auto
        then show ?thesis by auto
      qed
      show ?thesis
        using 3 i j m e k inv1 extends_length [OF ext] sub by auto
    qed
  qed
  then obtain result b1 where
    f: "(if i = identity_state_index b then Some (Inr (j, b))
        else if j = identity_state_index b then Some (Inr (i, b))
        else if i < length (states b) \<and> j < length (states b)
        then (case ParallelState_merge (states b ! i) (states b ! j) of
                Inl e \<Rightarrow> Some (Inl e)
              | Inr ps \<Rightarrow> enqueue c ps b)
        else Some (Inl OutOfBounds)) = Some (Inr (result, b1))"
    and res: "result < length (states b1)" and inv1: "builder_inv N b1"
    and le: "length (states b) \<le> length (states b1)"
    and sub: "set (states b1) \<subseteq> insert ?ps (set (states b))"
    by blast
  have wf1: "mt_wf (lexer_merge_table b1)"
    and n1: "num_states (lexer_merge_table b1) = length (states b1)"
    using inv1 by (simp_all add: builder_inv_def interner_inv_def mt_states_def)
  have w: "START c < length (states b1 ! result)"
    using inv1 res start by (simp add: builder_inv_def)
  let ?t = "\<lparr>result_state = result,
             produces_lexeme = produces_lexeme (states b1 ! result ! START c)\<rparr>"
  have "mt_set (lexer_merge_table b1) i j ?t
        = Inr ((lexer_merge_table b1)\<lparr>merge_table :=
                 (merge_table (lexer_merge_table b1))
                   [i + j * capacity (lexer_merge_table b1) := ?t]\<rparr>)"
    using i j le by (intro mt_set_wf [OF wf1]) (simp_all add: n1)
  then obtain mt where set: "mt_set (lexer_merge_table b1) i j ?t = Inr mt" by blast
  have ret: "merge c i j b = Some (Inr (b1\<lparr>lexer_merge_table := mt\<rparr>))"
    unfolding merge_def f using res w set by simp
  from merge_step [OF binv i j ret] have "builder_inv N (b1\<lparr>lexer_merge_table := mt\<rparr>)"
    by (simp add: step_def)
  moreover have "in_range ?ps N"
    using ri rj by (intro in_range_compose) (simp_all add: wj)
  then have "\<forall>ps\<in>set (states (b1\<lparr>lexer_merge_table := mt\<rparr>)). in_range ps N"
    using sub rng by auto
  ultimately show ?thesis using ret by (auto simp: sat_inv_def)
qed

lemma merge_inner_returns:
  assumes g: "growable c" and start: "START c < N"
  shows "sat_inv N b \<Longrightarrow> i < length (states b)
         \<Longrightarrow> \<exists>b'. merge_inner c i j b = Some (Inr b') \<and> sat_inv N b'"
proof (induction "bound N - j" arbitrary: b j rule: less_induct)
  case less
  show ?case
  proof (cases "j < length (states b)")
    case False
    then have "merge_inner c i j b = Some (Inr b)" by (subst merge_inner.simps) simp
    with less.prems(1) show ?thesis by simp
  next
    case True
    from merge_returns [OF less.prems(1) g start less.prems(2) True] obtain b1 where
      m1: "merge c i j b = Some (Inr b1)" and s1: "sat_inv N b1" by blast
    have binv: "builder_inv N b" using less.prems(1) by (simp add: sat_inv_def)
    from merge_step [OF binv less.prems(2) True m1] have "extends b b1" by (simp add: step_def)
    then have le1: "length (states b) \<le> length (states b1)" by (rule extends_length)
    have i1: "i < length (states b1)" and j1: "j < length (states b1)"
      using less.prems(2) True le1 by simp_all
    from merge_returns [OF s1 g start j1 i1] obtain b2 where
      m2: "merge c j i b1 = Some (Inr b2)" and s2: "sat_inv N b2" by blast
    have binv1: "builder_inv N b1" using s1 by (simp add: sat_inv_def)
    from merge_step [OF binv1 j1 i1 m2] have "extends b1 b2" by (simp add: step_def)
    then have le2: "length (states b1) \<le> length (states b2)" by (rule extends_length)
    have i2: "i < length (states b2)" using i1 le2 by simp
    have "j < bound N" using True length_states_le_bound [OF less.prems(1)] by simp
    then have "bound N - Suc j < bound N - j" by simp
    from less.hyps [OF this s2 i2] obtain b' where
      "merge_inner c i (Suc j) b2 = Some (Inr b')" "sat_inv N b'" by blast
    then show ?thesis using True m1 m2 by (subst merge_inner.simps) simp
  qed
qed

lemma merge_outer_returns:
  assumes g: "growable c" and start: "START c < N"
  shows "sat_inv N b \<Longrightarrow> \<exists>b'. merge_outer c i b = Some (Inr b') \<and> sat_inv N b'"
proof (induction "bound N - i" arbitrary: b i rule: less_induct)
  case less
  show ?case
  proof (cases "i < length (states b)")
    case False
    then have "merge_outer c i b = Some (Inr b)" by (subst merge_outer.simps) simp
    with less.prems show ?thesis by simp
  next
    case True
    from merge_inner_returns [OF g start less.prems True] obtain b1 where
      m1: "merge_inner c i 0 b = Some (Inr b1)" and s1: "sat_inv N b1" by blast
    have "i < bound N" using True length_states_le_bound [OF less.prems] by simp
    then have "bound N - Suc i < bound N - i" by simp
    from less.hyps [OF this s1] obtain b' where
      "merge_outer c (Suc i) b1 = Some (Inr b')" "sat_inv N b'" by blast
    then show ?thesis using True m1 by (subst merge_outer.simps) simp
  qed
qed

lemma fold_set_final_state_returns:
  "\<forall>(ps, i)\<in>set es. START c < length ps
       \<and> result_state (ps ! START c) < dfa_num_states dfa \<and> i < length fs0
     \<Longrightarrow> \<exists>fs. fold (set_final_state c dfa) es (Inr fs0) = Inr fs"
proof (induction es arbitrary: fs0)
  case Nil
  then show ?case by simp
next
  case (Cons entry es)
  obtain ps i where entry: "entry = (ps, i)" by (cases entry)
  let ?fs1 = "fs0[i := lexeme (dfa ! result_state (ps ! START c))]"
  have one: "set_final_state c dfa entry (Inr fs0) = Inr ?fs1"
    using Cons.prems by (simp add: set_final_state_def entry)
  have "\<forall>(ps, i)\<in>set es. START c < length ps
       \<and> result_state (ps ! START c) < dfa_num_states dfa \<and> i < length ?fs1"
    using Cons.prems by auto
  from Cons.IH [OF this] show ?case by (simp add: one)
qed

lemma compute_final_states_returns:
  assumes inv: "sat_inv (dfa_num_states dfa) b" and start: "START c < dfa_num_states dfa"
  shows "\<exists>fs. compute_final_states c dfa b = Inr fs"
proof -
  let ?N = "dfa_num_states dfa"
  have seen: "seen b = zip (states b) [0..<length (states b)]"
    using inv by (simp add: sat_inv_def builder_inv_def interner_inv_def)
  have "\<forall>(ps, i)\<in>set (seen b). START c < length ps
       \<and> result_state (ps ! START c) < ?N \<and> i < length (replicate (length (seen b)) None)"
  proof (intro ballI, clarify)
    fix ps i assume "(ps, i) \<in> set (seen b)"
    then have mem: "ps \<in> set (states b)" and i: "i < length (states b)"
      by (auto simp: seen set_zip)
    have l: "length ps = ?N" and r: "in_range ps ?N"
      using inv mem by (simp_all add: sat_inv_def builder_inv_def)
    have "result_state (ps ! START c) < ?N" using r start by (intro in_range_nth) (simp_all add: l)
    then show "START c < length ps \<and> result_state (ps ! START c) < ?N
                 \<and> i < length (replicate (length (seen b)) None)"
      using l start i by (simp add: seen)
  qed
  then show ?thesis unfolding compute_final_states_def by (rule fold_set_final_state_returns)
qed

text \<open>
  The automata on which the constructor has no failing step. \<open>START\<close> is a state of the
  automaton, and every transition is on a symbol of the alphabet and leads to a state of
  the automaton. The parallel states have one slot per state of the automaton, and
  \<open>merge\<close> reads the slot of its argument that a stored \<open>result_state\<close> names: so either
  \<open>REJECT\<close> is a state of the automaton as well, or no slot of an initial state keeps the
  defaulted transition, that is, every state has a transition on every symbol.
\<close>

definition wf_dfa :: "constants \<Rightarrow> 'l FiniteStateAutomaton \<Rightarrow> bool" where
  "wf_dfa c dfa \<longleftrightarrow>
     START c < dfa_num_states dfa
     \<and> (\<forall>st\<in>set dfa. \<forall>tr\<in>set (transitions st).
           (\<exists>v\<le>MAX_SYM c. fst tr = Some v) \<and> fst (snd tr) < dfa_num_states dfa)
     \<and> (REJECT c < dfa_num_states dfa
          \<or> (\<forall>st\<in>set dfa. \<forall>v\<le>MAX_SYM c. Some v \<in> fst ` set (transitions st)))"

lemma in_range_update:
  "in_range ps N \<Longrightarrow> result_state t < N \<Longrightarrow> in_range (ps[s := t]) N"
  unfolding in_range_def list_all_iff using set_update_subset_insert [of ps s t] by auto

lemma fold_seed_transition_returns:
  "shape M N initial \<Longrightarrow> \<forall>ps\<in>set initial. in_range ps N' \<Longrightarrow> src < N
     \<Longrightarrow> \<forall>tr\<in>set ts. (\<exists>v<M. fst tr = Some v) \<and> fst (snd tr) < N'
     \<Longrightarrow> \<exists>initial'. fold (seed_transition src) ts (Inr initial) = Inr initial'
           \<and> shape M N initial' \<and> (\<forall>ps\<in>set initial'. in_range ps N')"
proof (induction ts arbitrary: initial)
  case Nil
  then show ?case by simp
next
  case (Cons tr ts)
  obtain symbol dst pl where tr: "tr = (symbol, dst, pl)" by (cases tr)
  from Cons.prems(4) obtain v where v: "v < M" "symbol = Some v" and dst: "dst < N'"
    by (auto simp: tr)
  have M: "length initial = M" and w: "length (initial ! v) = N"
    using Cons.prems(1) v(1) by (simp_all add: shape_def)
  let ?row = "(initial ! v)[src := \<lparr>result_state = dst, produces_lexeme = pl\<rparr>]"
  let ?i1 = "initial[v := ?row]"
  have one: "seed_transition src tr (Inr initial) = Inr ?i1"
    using v M w Cons.prems(3)
    by (simp add: seed_transition_def tr Transition_update_both)
  have sh1: "shape M N ?i1"
    using Cons.prems(1) v(1) by (auto simp: shape_def nth_list_update)
  have "in_range (initial ! v) N'" using Cons.prems(2) v(1) M by simp
  then have "in_range ?row N'" using dst by (intro in_range_update) simp_all
  then have r1: "\<forall>ps\<in>set ?i1. in_range ps N'"
    using Cons.prems(2) set_update_subset_insert [of initial v ?row] by auto
  have "\<forall>tr\<in>set ts. (\<exists>v<M. fst tr = Some v) \<and> fst (snd tr) < N'"
    using Cons.prems(4) by simp
  from Cons.IH [OF sh1 r1 Cons.prems(3) this] show ?case by (simp add: one)
qed

lemma seed_rows_returns:
  assumes sh0: "shape M N initial0" and r0: "\<forall>ps\<in>set initial0. in_range ps N'"
    and trs: "\<forall>src<N. \<forall>tr\<in>set (transitions (dfa ! src)).
                (\<exists>v<M. fst tr = Some v) \<and> fst (snd tr) < N'"
  shows "m \<le> N \<Longrightarrow>
         \<exists>initial. fold (\<lambda>src. fold (seed_transition src) (transitions (dfa ! src))) [0..<m]
                      (Inr initial0) = Inr initial
           \<and> shape M N initial \<and> (\<forall>ps\<in>set initial. in_range ps N')"
proof (induction m)
  case 0
  show ?case using sh0 r0 by simp
next
  case (Suc m)
  let ?g = "\<lambda>src. fold (seed_transition src) (transitions (dfa ! src))"
  from Suc obtain initial1 where f: "fold ?g [0..<m] (Inr initial0) = Inr initial1"
    and sh1: "shape M N initial1" and r1: "\<forall>ps\<in>set initial1. in_range ps N'"
    by auto
  have m: "m < N" using Suc.prems by simp
  with trs have "\<forall>tr\<in>set (transitions (dfa ! m)).
                 (\<exists>v<M. fst tr = Some v) \<and> fst (snd tr) < N'"
    by blast
  from fold_seed_transition_returns [OF sh1 r1 m this] show ?case by (simp add: f)
qed

lemma seed_initial_states_returns:
  assumes wf: "wf_dfa c dfa" and det: "deterministic dfa"
  shows "\<exists>initial. seed_initial_states c dfa = Inr initial
           \<and> shape (MAX_SYM c + 1) (dfa_num_states dfa) initial
           \<and> (\<forall>ps\<in>set initial. in_range ps (dfa_num_states dfa))"
proof -
  let ?N = "dfa_num_states dfa" and ?M = "MAX_SYM c + 1"
  let ?N' = "max ?N (Suc (REJECT c))"
  let ?init0 = "replicate ?M (ParallelState_new c ?N)"
  have sh0: "shape ?M ?N ?init0"
    by (simp add: shape_def ParallelState_new_def del: replicate.simps)
  have r0: "\<forall>ps\<in>set ?init0. in_range ps ?N'"
    by (simp add: in_range_def list_all_iff ParallelState_new_def
        Transition_default_def less_max_iff_disj del: replicate.simps)
  have tr_ok: "(\<exists>v<?M. fst tr = Some v) \<and> fst (snd tr) < ?N"
    if "src < ?N" "tr \<in> set (transitions (dfa ! src))" for src tr
  proof -
    from that(1) have "dfa ! src \<in> set dfa" by (simp add: dfa_num_states_def)
    with that(2) show ?thesis using wf by (auto simp: wf_dfa_def less_Suc_eq_le)
  qed
  have trs: "\<forall>src<?N. \<forall>tr\<in>set (transitions (dfa ! src)).
                (\<exists>v<?M. fst tr = Some v) \<and> fst (snd tr) < ?N'"
    using tr_ok by (simp add: less_max_iff_disj)
  from seed_rows_returns [OF sh0 r0 trs, of ?N] obtain initial where
    seed: "seed_initial_states c dfa = Inr initial" and sh: "shape ?M ?N initial"
    unfolding seed_initial_states_def by blast
  from seed_initial_states_Inr [OF seed] det
  have vals: "\<forall>v\<le>MAX_SYM c. \<forall>s<?N. initial ! v ! s =
               (case find (\<lambda>tr. fst tr = Some v) (transitions (dfa ! s)) of
                  Some tr \<Rightarrow> \<lparr>result_state = fst (snd tr), produces_lexeme = snd (snd tr)\<rparr>
                | None \<Rightarrow> Transition_default c)"
    by blast
  have slot: "result_state (initial ! v ! s) < ?N" if v: "v \<le> MAX_SYM c" and s: "s < ?N" for v s
  proof (cases "find (\<lambda>tr. fst tr = Some v) (transitions (dfa ! s))")
    case None
    then have no: "Some v \<notin> fst ` set (transitions (dfa ! s))"
      by (force simp: find_None_iff)
    have "dfa ! s \<in> set dfa" using s by (simp add: dfa_num_states_def)
    with no v wf have "REJECT c < ?N" unfolding wf_dfa_def by blast
    moreover from vals v s None have "initial ! v ! s = Transition_default c" by simp
    ultimately show ?thesis by (simp add: Transition_default_def)
  next
    case (Some tr)
    then have "tr \<in> set (transitions (dfa ! s))"
      by (auto simp: find_Some_iff in_set_conv_nth)
    from tr_ok [OF s this] have "fst (snd tr) < ?N" by simp
    moreover from vals v s Some
    have "initial ! v ! s = \<lparr>result_state = fst (snd tr), produces_lexeme = snd (snd tr)\<rparr>"
      by simp
    ultimately show ?thesis by simp
  qed
  have "\<forall>ps\<in>set initial. in_range ps ?N"
  proof
    fix ps assume "ps \<in> set initial"
    then obtain v where v: "v < ?M" and ps: "ps = initial ! v"
      using sh by (auto simp: in_set_conv_nth shape_def)
    have len: "length ps = ?N" using sh v by (simp add: ps shape_def)
    show "in_range ps ?N"
      unfolding in_range_def list_all_length
    proof (intro allI impI)
      fix s assume "s < length ps"
      then have "s < ?N" using len by simp
      with slot [of v s] v show "result_state (ps ! s) < ?N" by (simp add: ps)
    qed
  qed
  with seed sh show ?thesis by blast
qed

lemma enqueue_states:
  assumes inv: "interner_inv b" and r: "enqueue c ps b = Some (Inr (k, b'))"
  shows "set (states b') \<subseteq> insert ps (set (states b))"
proof (cases "ps \<in> set (states b)")
  case True
  from enqueue_seen [OF inv True, of c] r have "b' = b" by simp
  then show ?thesis by auto
next
  case False
  from enqueue_fresh [OF inv False r] have "states b' = states b @ [ps]" by auto
  then show ?thesis by auto
qed

lemma enqueue_initial_returns:
  assumes g: "growable c" and start: "START c < N"
    and sh: "\<forall>v<length initial. length (initial ! v) = N"
  shows "builder_inv N b \<Longrightarrow> symbol + n = length initial
     \<Longrightarrow> length (initial_states b) = length initial
     \<Longrightarrow> \<exists>b'. enqueue_initial c initial symbol n b = Some (Inr b')
           \<and> set (states b') \<subseteq> set (states b) \<union> set initial"
proof (induction n arbitrary: symbol b)
  case 0
  then show ?case by simp
next
  case (Suc n)
  let ?state = "initial ! symbol"
  let ?p = "produces_lexeme (?state ! START c)"
  let ?ba = "b\<lparr>initial_states := (initial_states b)[symbol :=
                      (initial_states b ! symbol)\<lparr>produces_lexeme := ?p\<rparr>]\<rparr>"
  have sym: "symbol < length initial" using Suc.prems(2) by simp
  then have w: "length ?state = N" using sh by simp
  have inva: "builder_inv N ?ba" using Suc.prems(1) by simp
  from enqueue_returns [OF inva g, of ?state] obtain k b1 where
    enq: "enqueue c ?state ?ba = Some (Inr (k, b1))" by blast
  let ?bb = "b1\<lparr>initial_states := (initial_states b1)[symbol :=
                            (initial_states b1 ! symbol)\<lparr>result_state := k\<rparr>]\<rparr>"
  from enqueue_step [OF inva w enq] have st: "step c N ?ba b1" by simp
  then have inv1: "builder_inv N b1" and ext: "extends ?ba b1" by (simp_all add: step_def)
  have l1: "length (initial_states b1) = length initial"
    using ext Suc.prems(3) by (simp add: extends_def)
  have "interner_inv ?ba" using inva by (simp add: builder_inv_def)
  from enqueue_states [OF this enq] have sub1: "set (states b1) \<subseteq> insert ?state (set (states b))"
    by simp
  have "builder_inv N ?bb" using inv1 by simp
  moreover have "Suc symbol + n = length initial" using Suc.prems(2) by simp
  moreover have "length (initial_states ?bb) = length initial" using l1 by simp
  ultimately obtain b' where
    rest: "enqueue_initial c initial (Suc symbol) n ?bb = Some (Inr b')"
    and sub: "set (states b') \<subseteq> set (states ?bb) \<union> set initial"
    using Suc.IH by blast
  have "enqueue_initial c initial symbol (Suc n) b = Some (Inr b')"
    using w start sym Suc.prems(3) enq rest by (simp add: Let_def)
  moreover have "?state \<in> set initial" using sym by simp
  then have "set (states b') \<subseteq> set (states b) \<union> set initial" using sub sub1 by auto
  ultimately show ?case by blast
qed

lemma sat_inv_identity_state_index [simp]:
  "sat_inv N (b\<lparr>identity_state_index := x\<rparr>) = sat_inv N b"
  by (simp add: sat_inv_def)

text \<open>
  On a well-formed automaton, with constants that let the merge table grow, the
  constructor returns an artifact: no assertion fails, no read is out of range, and the
  saturation loop ends.
\<close>

lemma ctor_returns:
  assumes wf: "wf_dfa c dfa" and det: "deterministic dfa" and g: "growable c"
  shows "\<exists>b. ParallelLexer_ctor c dfa = Some (Inr b)"
proof -
  let ?N = "dfa_num_states dfa"
  have start: "START c < ?N" using wf by (simp add: wf_dfa_def)
  from seed_initial_states_returns [OF wf det] obtain initial where
    seed: "seed_initial_states c dfa = Inr initial"
    and sh: "shape (MAX_SYM c + 1) ?N initial"
    and rng: "\<forall>ps\<in>set initial. in_range ps ?N"
    by blast
  have widths: "\<forall>v<length initial. length (initial ! v) = ?N"
    using sh by (simp add: shape_def)
  let ?b0 = "ParallelLexer_new\<lparr>initial_states :=
                  replicate (length initial) (Transition_default c)\<rparr> :: 'a ParallelLexer"
  have inv0: "builder_inv ?N ?b0" using builder_inv_new by simp
  have s0: "states ?b0 = []" by (simp add: ParallelLexer_new_def)
  from enqueue_initial_returns [OF g start widths inv0, of 0 "length initial"] obtain b1 where
    e1: "enqueue_initial c initial 0 (length initial) ?b0 = Some (Inr b1)"
    and sub1: "set (states b1) \<subseteq> set (states ?b0) \<union> set initial"
    by auto
  from enqueue_initial_Inr [OF widths e1 inv0] have inv1: "builder_inv ?N b1" by simp
  from enqueue_returns [OF inv1 g, of "identity c ?N"] obtain k b2 where
    e2: "enqueue c (identity c ?N) b1 = Some (Inr (k, b2))" by blast
  from enqueue_step [OF inv1 length_identity e2] have inv2: "builder_inv ?N b2"
    by (simp add: step_def)
  have "interner_inv b1" using inv1 by (simp add: builder_inv_def)
  from enqueue_states [OF this e2] have sub2: "set (states b2) \<subseteq> insert (identity c ?N) (set (states b1))" .
  have "\<forall>ps\<in>set (states b2). in_range ps ?N"
    using sub2 sub1 rng in_range_identity [of c ?N] by (auto simp: s0)
  with inv2 have sat2: "sat_inv ?N (b2\<lparr>identity_state_index := k\<rparr>)"
    by (simp add: sat_inv_def)
  from merge_outer_returns [OF g start sat2, of 0] obtain b3 where
    sat: "merge_outer c 0 (b2\<lparr>identity_state_index := k\<rparr>) = Some (Inr b3)"
    and sat3: "sat_inv ?N b3" by blast
  from compute_final_states_returns [OF sat3 start] obtain fs where
    fin: "compute_final_states c dfa b3 = Inr fs" by blast
  have "ParallelLexer_ctor c dfa = Some (Inr (b3\<lparr>final_states := fs\<rparr>))"
    by (simp add: ParallelLexer_ctor_def seed e1 e2 sat fin)
  then show ?thesis by blast
qed

section \<open>Properties of the completed artifact\<close>

lemma artifact_cell:
  assumes ok: "artifact_ok c dfa b" and i: "i < length (states b)" and j: "j < length (states b)"
  obtains t where "mt_get (lexer_merge_table b) i j = Inr t"
    "result_state t < length (states b)"
    "result_ok (dfa_num_states dfa) (states b) (identity_state_index b) i j (result_state t)"
    "produces_lexeme t = produces_lexeme (states b ! result_state t ! START c)"
proof -
  from ok i j have "cell_ok c (dfa_num_states dfa) b i j" by (simp add: artifact_ok_def)
  then show thesis using that by (auto simp: cell_ok_def result_ok_def)
qed

lemma artifact_width:
  "artifact_ok c dfa b \<Longrightarrow> i < length (states b) \<Longrightarrow> length (states b ! i) = dfa_num_states dfa"
  by (simp add: artifact_ok_def builder_inv_def)

lemma artifact_distinct: "artifact_ok c dfa b \<Longrightarrow> distinct (states b)"
  by (simp add: artifact_ok_def builder_inv_def interner_inv_def)

lemma artifact_index_eq:
  assumes "artifact_ok c dfa b" "i < length (states b)" "j < length (states b)"
    "states b ! i = states b ! j"
  shows "i = j"
  using assms artifact_distinct [OF assms(1)] by (simp add: nth_eq_iff_index_eq)

lemma artifact_identity:
  assumes "artifact_ok c dfa b"
  shows "identity_state_index b < length (states b)"
    "states b ! identity_state_index b = identity c (dfa_num_states dfa)"
  using assms by (simp_all add: artifact_ok_def)

text \<open>Every interned state maps automaton states to automaton states.\<close>

lemma artifact_in_range:
  assumes ok: "artifact_ok c dfa b" and i: "i < length (states b)"
  shows "in_range (states b ! i) (dfa_num_states dfa)"
proof (cases "i = identity_state_index b")
  case True
  show ?thesis
    unfolding True artifact_identity(2) [OF ok] by (rule in_range_identity)
next
  case False
  obtain t where "mt_get (lexer_merge_table b) i i = Inr t"
    and "result_state t < length (states b)"
    and r: "result_ok (dfa_num_states dfa) (states b) (identity_state_index b) i i (result_state t)"
    and "produces_lexeme t = produces_lexeme (states b ! result_state t ! START c)"
    by (rule artifact_cell [OF ok i i])
  from r have "if i = identity_state_index b then result_state t = i
        else if i = identity_state_index b then result_state t = i
        else in_range (states b ! i) (dfa_num_states dfa)
           \<and> states b ! result_state t = compose (states b ! i) (states b ! i)"
    unfolding result_ok_def by (rule conjunct2)
  then show ?thesis by (simp only: False if_False)
qed

text \<open>The state at the index in cell \<open>(i, j)\<close>, when \<open>j\<close> is not the identity.\<close>

lemma artifact_cell_compose:
  assumes ok: "artifact_ok c dfa b" and i: "i < length (states b)" and j: "j < length (states b)"
    and t: "mt_get (lexer_merge_table b) i j = Inr t" and nj: "j \<noteq> identity_state_index b"
  shows "states b ! result_state t = compose (states b ! i) (states b ! j)"
proof -
  obtain t' where "mt_get (lexer_merge_table b) i j = Inr t'"
    and "result_state t' < length (states b)"
    and "result_ok (dfa_num_states dfa) (states b) (identity_state_index b) i j (result_state t')"
    and "produces_lexeme t' = produces_lexeme (states b ! result_state t' ! START c)"
    by (rule artifact_cell [OF ok i j])
  with t have
    r: "result_ok (dfa_num_states dfa) (states b) (identity_state_index b) i j (result_state t)"
    by simp
  show ?thesis
  proof (cases "i = identity_state_index b")
    case True
    with r have rj: "result_state t = j" by (simp add: result_ok_def)
    have "compose (states b ! i) (states b ! j) = states b ! j"
      unfolding True artifact_identity(2) [OF ok]
      using artifact_width [OF ok j] by (rule compose_identity_left)
    then show ?thesis by (simp add: rj)
  next
    case False
    with r nj show ?thesis by (simp add: result_ok_def)
  qed
qed

text \<open>The index in cell \<open>(i, j)\<close> when an operand is the identity.\<close>

lemma artifact_cell_identity:
  assumes ok: "artifact_ok c dfa b" and i: "i < length (states b)" and j: "j < length (states b)"
    and t: "mt_get (lexer_merge_table b) i j = Inr t"
  shows "i = identity_state_index b \<Longrightarrow> result_state t = j"
    and "j = identity_state_index b \<Longrightarrow> result_state t = i"
proof -
  obtain t' where "mt_get (lexer_merge_table b) i j = Inr t'"
    and "result_state t' < length (states b)"
    and "result_ok (dfa_num_states dfa) (states b) (identity_state_index b) i j (result_state t')"
    and "produces_lexeme t' = produces_lexeme (states b ! result_state t' ! START c)"
    by (rule artifact_cell [OF ok i j])
  with t have
    r: "result_ok (dfa_num_states dfa) (states b) (identity_state_index b) i j (result_state t)"
    by simp
  show "i = identity_state_index b \<Longrightarrow> result_state t = j"
    using r by (simp add: result_ok_def)
  show "j = identity_state_index b \<Longrightarrow> result_state t = i"
    using r by (auto simp: result_ok_def split: if_splits)
qed

lemma compose_assoc:
  assumes "in_range P (length Q)"
  shows "compose (compose P Q) R = compose P (compose Q R)"
proof (rule nth_equalityI)
  show "length (compose (compose P Q) R) = length (compose P (compose Q R))" by simp
next
  fix s assume "s < length (compose (compose P Q) R)"
  then have s: "s < length P" by simp
  then have "result_state (P ! s) < length Q" using assms by (rule in_range_nth [rotated])
  with s show "compose (compose P Q) R ! s = compose P (compose Q R) ! s"
    by (simp add: nth_compose)
qed

text \<open>Composition with the identity on the right clears every \<open>produces_lexeme\<close> flag.\<close>

lemma compose_identity_right:
  assumes "in_range P N"
  shows "compose P (identity c N) = P \<longleftrightarrow> (\<forall>s<length P. \<not> produces_lexeme (P ! s))"
proof
  assume eq: "compose P (identity c N) = P"
  show "\<forall>s<length P. \<not> produces_lexeme (P ! s)"
  proof (intro allI impI)
    fix s assume s: "s < length P"
    then have "result_state (P ! s) < N" using assms by (rule in_range_nth [rotated])
    with s have "produces_lexeme (compose P (identity c N) ! s) = False"
      by (simp add: nth_compose nth_identity)
    moreover have "produces_lexeme (compose P (identity c N) ! s) = produces_lexeme (P ! s)"
      by (simp only: eq)
    ultimately have "produces_lexeme (P ! s) = False" by simp
    then show "\<not> produces_lexeme (P ! s)" by simp
  qed
next
  assume none: "\<forall>s<length P. \<not> produces_lexeme (P ! s)"
  show "compose P (identity c N) = P"
  proof (rule nth_equalityI)
    show "length (compose P (identity c N)) = length P" by simp
  next
    fix s assume "s < length (compose P (identity c N))"
    then have s: "s < length P" by simp
    obtain r p where Ps: "P ! s = \<lparr>result_state = r, produces_lexeme = p\<rparr>"
      by (cases "P ! s") auto
    have "result_state (P ! s) < N" using assms s by (rule in_range_nth)
    then have r: "r < N" by (simp add: Ps)
    have "\<not> produces_lexeme (P ! s)" using none s by blast
    then have p: "p = False" by (simp add: Ps)
    have "compose P (identity c N) ! s = identity c N ! r"
      using s by (simp add: nth_compose Ps)
    also have "\<dots> = \<lparr>result_state = r, produces_lexeme = False\<rparr>"
      using r by (rule nth_identity)
    finally show "compose P (identity c N) ! s = P ! s" by (simp add: Ps p)
  qed
qed

lemma artifact_num_states:
  "artifact_ok c dfa b \<Longrightarrow> mt_states (lexer_merge_table b) = length (states b)"
  by (simp add: artifact_ok_def builder_inv_def interner_inv_def)

lemma artifact_start:
  "artifact_ok c dfa b \<Longrightarrow> i < length (states b) \<Longrightarrow> START c < length (states b ! i)"
  by (simp add: artifact_ok_def builder_inv_def)

text \<open>
  Claim C2, as the code has it. On every completed artifact and for all interned
  \<open>i\<close>, \<open>j\<close>: \<open>merge_table[i, j].result_state\<close> is an interned index. When \<open>j\<close> is not the
  identity it is the index of \<open>states[i]\<close> merged with \<open>states[j]\<close> (every read of that merge
  being in range), so that composition is interned; when \<open>j\<close> is the identity it is \<open>i\<close>,
  by the shortcut of the \<open>merge\<close> lambda. The single growing sweep fills the whole table.
\<close>

theorem merge_table_closed:
  assumes ret: "ParallelLexer_ctor c dfa = Some (Inr b)"
    and i: "i < length (states b)" and j: "j < length (states b)"
  shows "mt_states (lexer_merge_table b) = length (states b)
       \<and> (\<exists>t. mt_get (lexer_merge_table b) i j = Inr t
             \<and> result_state t < length (states b)
             \<and> (j \<noteq> identity_state_index b \<longrightarrow>
                  ParallelState_merge (states b ! i) (states b ! j)
                    = Inr (states b ! result_state t))
             \<and> (j = identity_state_index b \<longrightarrow> result_state t = i)
             \<and> (i = identity_state_index b \<longrightarrow> result_state t = j))"
proof -
  have ok: "artifact_ok c dfa b" using ret by (rule ctor_artifact_ok)
  obtain t where t: "mt_get (lexer_merge_table b) i j = Inr t"
    and r: "result_state t < length (states b)"
    and "result_ok (dfa_num_states dfa) (states b) (identity_state_index b) i j (result_state t)"
    and "produces_lexeme t = produces_lexeme (states b ! result_state t ! START c)"
    by (rule artifact_cell [OF ok i j])
  have "ParallelState_merge (states b ! i) (states b ! j) = Inr (states b ! result_state t)"
    if nj: "j \<noteq> identity_state_index b"
  proof -
    have "in_range (states b ! i) (length (states b ! j))"
      using artifact_in_range [OF ok i] artifact_width [OF ok j] by simp
    then show ?thesis
      using artifact_cell_compose [OF ok i j t nj] by (simp add: merge_in_range)
  qed
  then show ?thesis
    using artifact_num_states [OF ok] t r artifact_cell_identity [OF ok i j t] by blast
qed

text \<open>
  Claim C4. On every completed artifact, \<open>merge_table[identity, i].result_state = i\<close> and
  \<open>merge_table[i, identity].result_state = i\<close> for every interned \<open>i\<close>, and the state
  interned at \<open>identity_state_index\<close> maps every automaton state \<open>s\<close> to \<open>(s, false)\<close>.
\<close>

theorem identity_unit:
  assumes ret: "ParallelLexer_ctor c dfa = Some (Inr b)" and i: "i < length (states b)"
  shows "identity_state_index b < length (states b)
       \<and> (\<exists>t. mt_get (lexer_merge_table b) (identity_state_index b) i = Inr t
             \<and> result_state t = i)
       \<and> (\<exists>t. mt_get (lexer_merge_table b) i (identity_state_index b) = Inr t
             \<and> result_state t = i)
       \<and> length (states b ! identity_state_index b) = dfa_num_states dfa
       \<and> (\<forall>s<dfa_num_states dfa.
             states b ! identity_state_index b ! s
               = \<lparr>result_state = s, produces_lexeme = False\<rparr>)"
proof -
  have ok: "artifact_ok c dfa b" using ret by (rule ctor_artifact_ok)
  note id = artifact_identity [OF ok]
  obtain t where t: "mt_get (lexer_merge_table b) (identity_state_index b) i = Inr t"
    and "result_state t < length (states b)"
    and "result_ok (dfa_num_states dfa) (states b) (identity_state_index b)
           (identity_state_index b) i (result_state t)"
    and "produces_lexeme t = produces_lexeme (states b ! result_state t ! START c)"
    by (rule artifact_cell [OF ok id(1) i])
  obtain t' where t': "mt_get (lexer_merge_table b) i (identity_state_index b) = Inr t'"
    and "result_state t' < length (states b)"
    and "result_ok (dfa_num_states dfa) (states b) (identity_state_index b)
           i (identity_state_index b) (result_state t')"
    and "produces_lexeme t' = produces_lexeme (states b ! result_state t' ! START c)"
    by (rule artifact_cell [OF ok i id(1)])
  have "result_state t = i" using artifact_cell_identity(1) [OF ok id(1) i t] by simp
  moreover have "result_state t' = i" using artifact_cell_identity(2) [OF ok i id(1) t'] by simp
  moreover have "\<forall>s<dfa_num_states dfa.
             states b ! identity_state_index b ! s
               = \<lparr>result_state = s, produces_lexeme = False\<rparr>"
    unfolding id(2) by (simp add: nth_identity)
  moreover have "length (states b ! identity_state_index b) = dfa_num_states dfa"
    unfolding id(2) by simp
  ultimately show ?thesis using id(1) t t' by blast
qed

text \<open>
  Claim C6. On every completed artifact and for all interned \<open>i\<close>, \<open>j\<close>, the flag stored in
  \<open>merge_table[i, j]\<close> is the \<open>START\<close> flag of the state at the stored index; when exactly
  one operand is the identity that state is the other operand, so the flag is the other
  operand's \<open>START\<close> flag.
\<close>

theorem produces_lexeme_consistent:
  assumes ret: "ParallelLexer_ctor c dfa = Some (Inr b)"
    and i: "i < length (states b)" and j: "j < length (states b)"
  shows "\<exists>t. mt_get (lexer_merge_table b) i j = Inr t
           \<and> result_state t < length (states b)
           \<and> START c < length (states b ! result_state t)
           \<and> produces_lexeme t = produces_lexeme (states b ! result_state t ! START c)
           \<and> (i = identity_state_index b \<and> j \<noteq> identity_state_index b
                \<longrightarrow> produces_lexeme t = produces_lexeme (states b ! j ! START c))
           \<and> (j = identity_state_index b \<and> i \<noteq> identity_state_index b
                \<longrightarrow> produces_lexeme t = produces_lexeme (states b ! i ! START c))"
proof -
  have ok: "artifact_ok c dfa b" using ret by (rule ctor_artifact_ok)
  obtain t where t: "mt_get (lexer_merge_table b) i j = Inr t"
    and r: "result_state t < length (states b)"
    and "result_ok (dfa_num_states dfa) (states b) (identity_state_index b) i j (result_state t)"
    and p: "produces_lexeme t = produces_lexeme (states b ! result_state t ! START c)"
    by (rule artifact_cell [OF ok i j])
  have "produces_lexeme t = produces_lexeme (states b ! j ! START c)"
    if "i = identity_state_index b"
    using artifact_cell_identity(1) [OF ok i j t that] p by simp
  moreover have "produces_lexeme t = produces_lexeme (states b ! i ! START c)"
    if "j = identity_state_index b"
    using artifact_cell_identity(2) [OF ok i j t that] p by simp
  ultimately show ?thesis using t r p artifact_start [OF ok r] by blast
qed

text \<open>
  Claim C7. On every completed artifact \<open>final_states\<close> has one entry per interned state
  (as many as \<open>seen\<close> has keys), and entry \<open>i\<close> is the lexeme attached to the automaton
  state \<open>states[i][START].result_state\<close>, which is a state of the automaton; the entry is
  \<open>None\<close> when no lexeme is attached.
\<close>

theorem final_states_spec:
  assumes ret: "ParallelLexer_ctor c dfa = Some (Inr b)"
  shows "length (final_states b) = length (states b)
       \<and> length (seen b) = length (states b)
       \<and> (\<forall>i<length (states b).
             START c < length (states b ! i)
             \<and> result_state (states b ! i ! START c) < dfa_num_states dfa
             \<and> final_states b ! i = lexeme (dfa ! result_state (states b ! i ! START c)))"
proof -
  have ok: "artifact_ok c dfa b" using ret by (rule ctor_artifact_ok)
  have "length (seen b) = length (states b)"
    using ok by (simp add: artifact_ok_def builder_inv_def interner_inv_def)
  moreover have "length (final_states b) = length (states b)"
    using ok by (simp add: artifact_ok_def)
  moreover have "\<forall>i<length (states b).
             result_state (states b ! i ! START c) < dfa_num_states dfa
             \<and> final_states b ! i = lexeme (dfa ! result_state (states b ! i ! START c))"
    using ok unfolding artifact_ok_def by blast
  ultimately show ?thesis using artifact_start [OF ok] by blast
qed

text \<open>
  Claim C5, as the code has it. On every completed artifact and for all interned \<open>i\<close>,
  \<open>j\<close>, \<open>k\<close>, the four table reads of the associativity equation are defined, and the
  equation holds exactly when it is not the case that \<open>j\<close> and \<open>k\<close> are both different
  from the identity, \<open>merge_table[j, k].result_state\<close> is the identity, and some slot of
  \<open>states[i]\<close> has \<open>produces_lexeme\<close> set. In particular it holds whenever \<open>i\<close>, \<open>j\<close> or \<open>k\<close>
  is the identity.
\<close>

theorem merge_table_assoc:
  assumes ret: "ParallelLexer_ctor c dfa = Some (Inr b)"
    and i: "i < length (states b)" and j: "j < length (states b)" and k: "k < length (states b)"
  shows "\<exists>tij tjk tl tr.
           mt_get (lexer_merge_table b) i j = Inr tij
         \<and> mt_get (lexer_merge_table b) j k = Inr tjk
         \<and> mt_get (lexer_merge_table b) (result_state tij) k = Inr tl
         \<and> mt_get (lexer_merge_table b) i (result_state tjk) = Inr tr
         \<and> (result_state tl = result_state tr \<longleftrightarrow>
              \<not> (j \<noteq> identity_state_index b \<and> k \<noteq> identity_state_index b
                 \<and> result_state tjk = identity_state_index b
                 \<and> (\<exists>s<dfa_num_states dfa. produces_lexeme (states b ! i ! s))))"
proof -
  let ?N = "dfa_num_states dfa" and ?id = "identity_state_index b"
  have ok: "artifact_ok c dfa b" using ret by (rule ctor_artifact_ok)
  obtain tij where tij: "mt_get (lexer_merge_table b) i j = Inr tij"
    and m: "result_state tij < length (states b)"
    and "result_ok ?N (states b) ?id i j (result_state tij)"
    and "produces_lexeme tij = produces_lexeme (states b ! result_state tij ! START c)"
    by (rule artifact_cell [OF ok i j])
  obtain tjk where tjk: "mt_get (lexer_merge_table b) j k = Inr tjk"
    and m': "result_state tjk < length (states b)"
    and "result_ok ?N (states b) ?id j k (result_state tjk)"
    and "produces_lexeme tjk = produces_lexeme (states b ! result_state tjk ! START c)"
    by (rule artifact_cell [OF ok j k])
  obtain tl where tl: "mt_get (lexer_merge_table b) (result_state tij) k = Inr tl"
    and l: "result_state tl < length (states b)"
    and "result_ok ?N (states b) ?id (result_state tij) k (result_state tl)"
    and "produces_lexeme tl = produces_lexeme (states b ! result_state tl ! START c)"
    by (rule artifact_cell [OF ok m k])
  obtain tr where tr: "mt_get (lexer_merge_table b) i (result_state tjk) = Inr tr"
    and r: "result_state tr < length (states b)"
    and "result_ok ?N (states b) ?id i (result_state tjk) (result_state tr)"
    and "produces_lexeme tr = produces_lexeme (states b ! result_state tr ! START c)"
    by (rule artifact_cell [OF ok i m'])
  have law: "result_state tl = result_state tr \<longleftrightarrow>
              \<not> (j \<noteq> ?id \<and> k \<noteq> ?id \<and> result_state tjk = ?id
                 \<and> (\<exists>s<?N. produces_lexeme (states b ! i ! s)))"
  proof -
    consider "k = ?id" | "k \<noteq> ?id" "j = ?id" | "k \<noteq> ?id" "j \<noteq> ?id" by blast
    then show ?thesis
    proof cases
      case 1
      have jk: "result_state tjk = j" using artifact_cell_identity(2) [OF ok j k tjk 1] .
      have "result_state tl = result_state tij"
        using artifact_cell_identity(2) [OF ok m k tl 1] .
      moreover have "tr = tij" using tr tij by (simp add: jk)
      ultimately show ?thesis using 1 by simp
    next
      case 2
      have ij: "result_state tij = i" using artifact_cell_identity(2) [OF ok i j tij 2(2)] .
      have jk: "result_state tjk = k" using artifact_cell_identity(1) [OF ok j k tjk 2(2)] .
      have "tl = tr" using tl tr by (simp add: ij jk)
      then show ?thesis using 2 by simp
    next
      case 3
      have Sm: "states b ! result_state tij = compose (states b ! i) (states b ! j)"
        using artifact_cell_compose [OF ok i j tij 3(2)] .
      have Sl: "states b ! result_state tl
                = compose (states b ! result_state tij) (states b ! k)"
        using artifact_cell_compose [OF ok m k tl 3(1)] .
      have Sm': "states b ! result_state tjk = compose (states b ! j) (states b ! k)"
        using artifact_cell_compose [OF ok j k tjk 3(1)] .
      have rng: "in_range (states b ! i) (length (states b ! j))"
        using artifact_in_range [OF ok i] artifact_width [OF ok j] by simp
      have Sl': "states b ! result_state tl
                 = compose (states b ! i) (states b ! result_state tjk)"
        unfolding Sl Sm Sm' using rng by (rule compose_assoc)
      show ?thesis
      proof (cases "result_state tjk = ?id")
        case False
        have "states b ! result_state tr
              = compose (states b ! i) (states b ! result_state tjk)"
          using artifact_cell_compose [OF ok i m' tr False] .
        then have "states b ! result_state tl = states b ! result_state tr"
          using Sl' by simp
        then have "result_state tl = result_state tr"
          using artifact_index_eq [OF ok l r] by blast
        then show ?thesis using False by simp
      next
        case True
        have ri: "result_state tr = i" using artifact_cell_identity(2) [OF ok i m' tr True] .
        have Sid: "states b ! result_state tjk = identity c ?N"
          unfolding True using artifact_identity(2) [OF ok] .
        have Sl'': "states b ! result_state tl = compose (states b ! i) (identity c ?N)"
          using Sl' unfolding Sid .
        have "result_state tl = i \<longleftrightarrow> states b ! result_state tl = states b ! i"
          using artifact_index_eq [OF ok l i] by auto
        also have "\<dots> \<longleftrightarrow> compose (states b ! i) (identity c ?N) = states b ! i"
          unfolding Sl'' ..
        also have "\<dots> \<longleftrightarrow> (\<forall>s<length (states b ! i). \<not> produces_lexeme (states b ! i ! s))"
          using artifact_in_range [OF ok i] by (rule compose_identity_right)
        also have "\<dots> \<longleftrightarrow> \<not> (\<exists>s<?N. produces_lexeme (states b ! i ! s))"
          using artifact_width [OF ok i] by auto
        finally show ?thesis using 3 True by (simp add: ri)
      qed
    qed
  qed
  show ?thesis using tij tjk tl tr law by blast
qed

section \<open>The automata on which the constructor returns\<close>

text \<open>
  A deterministic automaton for which the constructor returns an artifact is well formed:
  the seeding loop has passed the assertion and the bounds on every transition, and every
  slot of every initial state names a state of the automaton.
\<close>

lemma fold_seed_transition_symbols:
  "fold (seed_transition src) ts (Inr initial) = Inr initial'
     \<Longrightarrow> \<forall>tr\<in>set ts. \<exists>v<length initial. fst tr = Some v"
proof (induction ts arbitrary: initial)
  case Nil
  then show ?case by simp
next
  case (Cons tr ts)
  from Cons.prems obtain initial1 where
    one: "seed_transition src tr (Inr initial) = Inr initial1"
    and rest: "fold (seed_transition src) ts (Inr initial1) = Inr initial'"
    by (cases "seed_transition src tr (Inr initial)")
       (simp_all add: fold_seed_transition_Inl)
  from one obtain v dst pl where tr: "tr = (Some v, dst, pl)" and v: "v < length initial"
    and i1: "initial1 = initial[v := (initial ! v)[src :=
                  \<lparr>result_state = dst, produces_lexeme = pl\<rparr>]]"
    by (rule seed_transition_Inr)
  have "length initial1 = length initial" by (simp add: i1)
  with Cons.IH [OF rest] have "\<forall>tr\<in>set ts. \<exists>v<length initial. fst tr = Some v" by simp
  with tr v show ?case by simp
qed

lemma seed_rows_symbols:
  assumes sh: "shape M N initial0"
  shows "fold (\<lambda>src. fold (seed_transition src) (transitions (dfa ! src))) [0..<m] (Inr initial0)
           = Inr initial
         \<Longrightarrow> \<forall>src<m. \<forall>tr\<in>set (transitions (dfa ! src)). \<exists>v<M. fst tr = Some v"
proof (induction m arbitrary: initial)
  case 0
  then show ?case by simp
next
  case (Suc m)
  let ?g = "\<lambda>src. fold (seed_transition src) (transitions (dfa ! src))"
  from Suc.prems obtain initial1 where
    first: "fold ?g [0..<m] (Inr initial0) = Inr initial1"
    and last: "fold (seed_transition m) (transitions (dfa ! m)) (Inr initial1) = Inr initial"
    by (cases "fold ?g [0..<m] (Inr initial0)") (simp_all add: fold_seed_transition_Inl)
  from seed_rows [OF sh first] have "length initial1 = M" by (simp add: shape_def)
  with fold_seed_transition_symbols [OF last]
  have "\<forall>tr\<in>set (transitions (dfa ! m)). \<exists>v<M. fst tr = Some v" by simp
  with Suc.IH [OF first] show ?case by (simp add: less_Suc_eq)
qed

lemma find_distinct:
  "distinct (map fst ts) \<Longrightarrow> tr \<in> set ts \<Longrightarrow> find (\<lambda>t. fst t = fst tr) ts = Some tr"
proof (induction ts)
  case Nil
  then show ?case by simp
next
  case (Cons t ts)
  show ?case
  proof (cases "tr = t")
    case True
    then show ?thesis by simp
  next
    case False
    with Cons.prems have "tr \<in> set ts" "fst t \<notin> fst ` set ts" by simp_all
    then have "fst t \<noteq> fst tr" by force
    with Cons \<open>tr \<in> set ts\<close> show ?thesis by simp
  qed
qed

lemma ctor_returns_wf:
  assumes ret: "ParallelLexer_ctor c dfa = Some (Inr b)" and det: "deterministic dfa"
  shows "wf_dfa c dfa"
proof -
  let ?N = "dfa_num_states dfa" and ?M = "MAX_SYM c + 1"
  have ok: "artifact_ok c dfa b" using ret by (rule ctor_artifact_ok)
  then have start: "START c < ?N" by (simp add: artifact_ok_def)
  from ok obtain initial where seed: "seed_initial_states c dfa = Inr initial"
    and entries: "\<forall>v\<le>MAX_SYM c. \<exists>k<length (states b).
                 initial_states b ! v
                   = \<lparr>result_state = k,
                      produces_lexeme = produces_lexeme (initial ! v ! START c)\<rparr>
                 \<and> states b ! k = initial ! v"
    unfolding artifact_ok_def by blast
  from seed_initial_states_Inr [OF seed] det
  have sh: "shape ?M ?N initial"
    and vals: "\<forall>v\<le>MAX_SYM c. \<forall>s<?N. initial ! v ! s =
               (case find (\<lambda>tr. fst tr = Some v) (transitions (dfa ! s)) of
                  Some tr \<Rightarrow> \<lparr>result_state = fst (snd tr), produces_lexeme = snd (snd tr)\<rparr>
                | None \<Rightarrow> Transition_default c)"
    by blast+
  have slot: "result_state (initial ! v ! s) < ?N" if v: "v \<le> MAX_SYM c" and s: "s < ?N" for v s
  proof -
    from entries v obtain k where k: "k < length (states b)" and Sk: "states b ! k = initial ! v"
      by blast
    have "in_range (initial ! v) ?N" using artifact_in_range [OF ok k] by (simp add: Sk)
    moreover have "s < length (initial ! v)" using sh v s by (simp add: shape_def)
    ultimately show ?thesis by (rule in_range_nth)
  qed
  have sh0: "shape ?M ?N (replicate ?M (ParallelState_new c ?N))"
    by (simp add: shape_def ParallelState_new_def del: replicate.simps)
  note syms = seed_rows_symbols [OF sh0, of dfa ?N initial, OF seed [unfolded seed_initial_states_def]]
  have trs: "\<forall>st\<in>set dfa. \<forall>tr\<in>set (transitions st).
           (\<exists>v\<le>MAX_SYM c. fst tr = Some v) \<and> fst (snd tr) < ?N"
  proof (intro ballI)
    fix st tr assume st: "st \<in> set dfa" and tr: "tr \<in> set (transitions st)"
    from st obtain s where s: "s < ?N" and sts: "st = dfa ! s"
      by (auto simp: in_set_conv_nth dfa_num_states_def)
    from syms s tr obtain v where v: "v \<le> MAX_SYM c" and f: "fst tr = Some v"
      by (auto simp: sts less_Suc_eq_le)
    have "distinct (map fst (transitions st))" using det st by (simp add: deterministic_def)
    from find_distinct [OF this tr]
    have "find (\<lambda>t. fst t = Some v) (transitions (dfa ! s)) = Some tr" by (simp add: f sts)
    with vals v s have "initial ! v ! s
        = \<lparr>result_state = fst (snd tr), produces_lexeme = snd (snd tr)\<rparr>" by simp
    with slot [OF v s] have "fst (snd tr) < ?N" by simp
    with v f show "(\<exists>v\<le>MAX_SYM c. fst tr = Some v) \<and> fst (snd tr) < ?N" by blast
  qed
  have "REJECT c < ?N \<or> (\<forall>st\<in>set dfa. \<forall>v\<le>MAX_SYM c. Some v \<in> fst ` set (transitions st))"
  proof (rule disjCI)
    assume "\<not> (\<forall>st\<in>set dfa. \<forall>v\<le>MAX_SYM c. Some v \<in> fst ` set (transitions st))"
    then obtain st v where st: "st \<in> set dfa" and v: "v \<le> MAX_SYM c"
      and no: "Some v \<notin> fst ` set (transitions st)" by blast
    from st obtain s where s: "s < ?N" and sts: "st = dfa ! s"
      by (auto simp: in_set_conv_nth dfa_num_states_def)
    from no have "find (\<lambda>t. fst t = Some v) (transitions (dfa ! s)) = None"
      by (force simp: find_None_iff sts)
    with vals v s have "initial ! v ! s = Transition_default c" by simp
    with slot [OF v s] show "REJECT c < ?N" by (simp add: Transition_default_def)
  qed
  with start trs show ?thesis unfolding wf_dfa_def by blast
qed

section \<open>Soundness of the tables\<close>

text \<open>
  The two sides of the specification's soundness property (P4), in its words. \<open>REJECT\<close>
  is the sentinel of the specification: it stands for no state of the automaton, the
  automaton moves to it where a state has no transition on the symbol, nothing leads out
  of it, and no lexeme is attached to it. The sequential automaton starts at \<open>START\<close>
  and consumes one symbol at a time; the lexeme it recognizes is the one attached to the
  state it ends in, if any.
\<close>

definition dfa_step :: "constants \<Rightarrow> 'l FiniteStateAutomaton \<Rightarrow> StateIndex \<Rightarrow> nat \<Rightarrow> StateIndex" where
  "dfa_step c dfa s symbol =
     (if s \<noteq> REJECT c \<and> s < dfa_num_states dfa
      then (case find (\<lambda>tr. fst tr = Some symbol) (transitions (dfa ! s)) of
              Some tr \<Rightarrow> fst (snd tr)
            | None \<Rightarrow> REJECT c)
      else REJECT c)"

definition dfa_run :: "constants \<Rightarrow> 'l FiniteStateAutomaton \<Rightarrow> nat list \<Rightarrow> StateIndex" where
  "dfa_run c dfa bs = foldl (dfa_step c dfa) (START c) bs"

definition lexeme_at :: "constants \<Rightarrow> 'l FiniteStateAutomaton \<Rightarrow> StateIndex \<Rightarrow> 'l option" where
  "lexeme_at c dfa s =
     (if s \<noteq> REJECT c \<and> s < dfa_num_states dfa then lexeme (dfa ! s) else None)"

definition recognized :: "constants \<Rightarrow> 'l FiniteStateAutomaton \<Rightarrow> nat list \<Rightarrow> 'l option" where
  "recognized c dfa bs = lexeme_at c dfa (dfa_run c dfa bs)"

text \<open>
  The constructor has no notion of a sentinel: it reads \<open>dfa[REJECT]\<close> like any other
  state. Where \<open>REJECT\<close> is an index of the automaton, the state stored there is the
  reject state when no lexeme is attached to it and its transitions, if it has any, lead
  back to it.
\<close>

definition reject_dead :: "constants \<Rightarrow> 'l FiniteStateAutomaton \<Rightarrow> bool" where
  "reject_dead c dfa \<longleftrightarrow>
     (REJECT c < dfa_num_states dfa \<longrightarrow>
        lexeme (dfa ! REJECT c) = None
        \<and> (\<forall>tr\<in>set (transitions (dfa ! REJECT c)). fst (snd tr) = REJECT c))"

text \<open>
  The fold of the per-symbol entries \<open>initial_states[b_t]\<close> through the merge table, from
  the index \<open>r\<close> on. It reads the artifact as a consumer does: the table through
  \<open>operator()\<close>, the entries by index.
\<close>

fun scan :: "'l ParallelLexer \<Rightarrow> StateIndex \<Rightarrow> nat list \<Rightarrow> error + StateIndex" where
  "scan b r [] = Inr r"
| "scan b r (x # xs) =
     (if x < length (initial_states b)
      then (case mt_get (lexer_merge_table b) r (result_state (initial_states b ! x)) of
              Inl e \<Rightarrow> Inl e
            | Inr t \<Rightarrow> scan b (result_state t) xs)
      else Inl OutOfBounds)"

definition scan_fold :: "'l ParallelLexer \<Rightarrow> nat list \<Rightarrow> error + StateIndex" where
  "scan_fold b bs = scan b (identity_state_index b) bs"

lemma initial_step:
  assumes seed: "seed_initial_states c dfa = Inr initial" and det: "deterministic dfa"
    and dead: "reject_dead c dfa"
    and q: "q < dfa_num_states dfa" and x: "x \<le> MAX_SYM c"
  shows "result_state (initial ! x ! q) = dfa_step c dfa q x"
proof -
  from seed_initial_states_Inr [OF seed] det x q
  have v: "initial ! x ! q =
               (case find (\<lambda>tr. fst tr = Some x) (transitions (dfa ! q)) of
                  Some tr \<Rightarrow> \<lparr>result_state = fst (snd tr), produces_lexeme = snd (snd tr)\<rparr>
                | None \<Rightarrow> Transition_default c)"
    by blast
  show ?thesis
  proof (cases "q = REJECT c")
    case False
    with v show ?thesis
      using q by (simp add: dfa_step_def Transition_default_def split: option.splits)
  next
    case True
    have "result_state (initial ! x ! q) = REJECT c"
    proof (cases "find (\<lambda>tr. fst tr = Some x) (transitions (dfa ! q))")
      case None
      with v show ?thesis by (simp add: Transition_default_def)
    next
      case (Some tr)
      then have "tr \<in> set (transitions (dfa ! REJECT c))"
        by (auto simp: True find_Some_iff in_set_conv_nth)
      with dead q True have "fst (snd tr) = REJECT c" unfolding reject_dead_def by blast
      with v Some show ?thesis by simp
    qed
    with True show ?thesis by (simp add: dfa_step_def)
  qed
qed

lemma scan_sound:
  assumes ok: "artifact_ok c dfa b" and det: "deterministic dfa"
    and dead: "reject_dead c dfa"
  shows "r < length (states b) \<Longrightarrow> \<forall>x\<in>set bs. x \<le> MAX_SYM c \<Longrightarrow>
         \<exists>r'. scan b r bs = Inr r' \<and> r' < length (states b)
            \<and> result_state (states b ! r' ! START c)
               = foldl (dfa_step c dfa) (result_state (states b ! r ! START c)) bs"
proof (induction bs arbitrary: r)
  case Nil
  then show ?case by simp
next
  case (Cons x xs)
  let ?N = "dfa_num_states dfa"
  from ok obtain initial where seed: "seed_initial_states c dfa = Inr initial"
    and len: "length (initial_states b) = MAX_SYM c + 1"
    and entries: "\<forall>v\<le>MAX_SYM c. \<exists>k<length (states b).
                 initial_states b ! v
                   = \<lparr>result_state = k,
                      produces_lexeme = produces_lexeme (initial ! v ! START c)\<rparr>
                 \<and> states b ! k = initial ! v"
    unfolding artifact_ok_def by blast
  have x: "x \<le> MAX_SYM c" using Cons.prems(2) by simp
  with entries obtain k where k: "k < length (states b)"
    and e: "initial_states b ! x
              = \<lparr>result_state = k, produces_lexeme = produces_lexeme (initial ! x ! START c)\<rparr>"
    and Sk: "states b ! k = initial ! x"
    by blast
  have r: "r < length (states b)" by (rule Cons.prems(1))
  obtain t where t: "mt_get (lexer_merge_table b) r k = Inr t"
    and r1: "result_state t < length (states b)"
    and "result_ok ?N (states b) (identity_state_index b) r k (result_state t)"
    and "produces_lexeme t = produces_lexeme (states b ! result_state t ! START c)"
    by (rule artifact_cell [OF ok r k])
  let ?q = "result_state (states b ! r ! START c)"
  have st: "START c < length (states b ! r)" by (rule artifact_start [OF ok r])
  have q: "?q < ?N" using artifact_in_range [OF ok r] st by (rule in_range_nth)
  have step: "result_state (states b ! result_state t ! START c) = dfa_step c dfa ?q x"
  proof (cases "k = identity_state_index b")
    case False
    have "states b ! result_state t = compose (states b ! r) (states b ! k)"
      by (rule artifact_cell_compose [OF ok r k t False])
    then have "states b ! result_state t ! START c = initial ! x ! ?q"
      using st by (simp add: nth_compose Sk)
    then show ?thesis using initial_step [OF seed det dead q x] by simp
  next
    case True
    have rt: "result_state t = r" by (rule artifact_cell_identity(2) [OF ok r k t True])
    have "initial ! x = identity c ?N"
      using artifact_identity(2) [OF ok] Sk True by simp
    then have "result_state (initial ! x ! ?q) = ?q" using q by (simp add: nth_identity)
    then show ?thesis using initial_step [OF seed det dead q x] by (simp add: rt)
  qed
  from Cons.IH [OF r1] Cons.prems(2) obtain r' where
    s': "scan b (result_state t) xs = Inr r'" and r': "r' < length (states b)"
    and v: "result_state (states b ! r' ! START c)
            = foldl (dfa_step c dfa) (result_state (states b ! result_state t ! START c)) xs"
    by auto
  have "scan b r (x # xs) = Inr r'"
    using x len t s' by (simp add: e)
  with r' v step show ?case by simp
qed

text \<open>
  Claim C1. For a deterministic automaton in which \<open>REJECT\<close>, where it is an index of the
  automaton, holds the reject state, and for symbols within the alphabet: the
  constructor returns an artifact only when the automaton is well formed (\<open>REJECT\<close> is
  one of its states, or it has a transition from every state on every symbol), and it
  does return one when the automaton is well formed and the merge table can grow; on
  every artifact it returns, the fold of the per-symbol entries through the merge table
  from the identity index is defined, and \<open>final_states\<close> at the index it yields is the
  lexeme the sequential automaton recognizes.
\<close>

theorem scan_recognizes:
  assumes det: "deterministic dfa" and dead: "reject_dead c dfa"
    and bytes: "\<forall>x\<in>set bs. x \<le> MAX_SYM c"
  shows "((\<exists>b. ParallelLexer_ctor c dfa = Some (Inr b)) \<longrightarrow> wf_dfa c dfa)
       \<and> (wf_dfa c dfa \<and> growable c \<longrightarrow> (\<exists>b. ParallelLexer_ctor c dfa = Some (Inr b)))
       \<and> (\<forall>b. ParallelLexer_ctor c dfa = Some (Inr b) \<longrightarrow>
             (\<exists>r. scan_fold b bs = Inr r \<and> r < length (final_states b)
                \<and> final_states b ! r = recognized c dfa bs))"
proof (intro conjI impI allI)
  assume "\<exists>b. ParallelLexer_ctor c dfa = Some (Inr b)"
  then show "wf_dfa c dfa" using ctor_returns_wf det by blast
next
  assume "wf_dfa c dfa \<and> growable c"
  then show "\<exists>b. ParallelLexer_ctor c dfa = Some (Inr b)" using ctor_returns det by blast
next
  fix b assume ret: "ParallelLexer_ctor c dfa = Some (Inr b)"
  let ?N = "dfa_num_states dfa" and ?id = "identity_state_index b"
  have ok: "artifact_ok c dfa b" using ret by (rule ctor_artifact_ok)
  note id = artifact_identity [OF ok]
  have start: "START c < ?N" using ok by (simp add: artifact_ok_def)
  from scan_sound [OF ok det dead id(1) bytes] obtain r where
    s: "scan b ?id bs = Inr r" and r: "r < length (states b)"
    and v: "result_state (states b ! r ! START c)
            = foldl (dfa_step c dfa) (result_state (states b ! ?id ! START c)) bs"
    by blast
  have "result_state (states b ! ?id ! START c) = START c"
    unfolding id(2) using start by (simp add: nth_identity)
  with v have run: "result_state (states b ! r ! START c) = dfa_run c dfa bs"
    by (simp add: dfa_run_def)
  have fl: "length (final_states b) = length (states b)"
    and fv: "result_state (states b ! r ! START c) < ?N
           \<and> final_states b ! r = lexeme (dfa ! result_state (states b ! r ! START c))"
    using ok r unfolding artifact_ok_def by blast+
  have "final_states b ! r = recognized c dfa bs"
  proof (cases "dfa_run c dfa bs = REJECT c")
    case True
    with fv run dead have "lexeme (dfa ! dfa_run c dfa bs) = None"
      by (simp add: reject_dead_def)
    with fv True show ?thesis by (simp add: recognized_def lexeme_at_def run)
  next
    case False
    with fv show ?thesis by (simp add: recognized_def lexeme_at_def run)
  qed
  with s r fl show "\<exists>r. scan_fold b bs = Inr r \<and> r < length (final_states b)
                \<and> final_states b ! r = recognized c dfa bs"
    by (simp add: scan_fold_def)
qed

section \<open>Concrete automata\<close>

abbreviation Tr :: "StateIndex \<Rightarrow> bool \<Rightarrow> Transition" where
  "Tr r p \<equiv> \<lparr>result_state = r, produces_lexeme = p\<rparr>"

text \<open>
  Three states, \<open>START = 0\<close> and \<open>REJECT = 1\<close> (a state without transitions); both symbols
  swap states 0 and 2, and the transition from 0 on symbol 0 produces a lexeme.
\<close>

definition dfa_swap :: "nat FiniteStateAutomaton" where
  "dfa_swap = [\<lparr>transitions = [(Some 0, 2, True), (Some 1, 2, False)], lexeme = None\<rparr>,
               \<lparr>transitions = [], lexeme = None\<rparr>,
               \<lparr>transitions = [(Some 0, 0, False), (Some 1, 0, False)], lexeme = Some 7\<rparr>]"

definition lexer_swap :: "nat ParallelLexer" where
  "lexer_swap =
     \<lparr>seen = [([Tr 2 True, Tr 1 False, Tr 0 False], 0),
             ([Tr 2 False, Tr 1 False, Tr 0 False], 1),
             ([Tr 0 False, Tr 1 False, Tr 2 False], 2),
             ([Tr 0 False, Tr 1 False, Tr 2 True], 3)],
      states = [[Tr 2 True, Tr 1 False, Tr 0 False],
                [Tr 2 False, Tr 1 False, Tr 0 False],
                [Tr 0 False, Tr 1 False, Tr 2 False],
                [Tr 0 False, Tr 1 False, Tr 2 True]],
      initial_states = [Tr 0 True, Tr 1 False],
      lexer_merge_table =
        \<lparr>num_states = 4, capacity = 4,
         merge_table = [Tr 3 False, Tr 3 False, Tr 0 True, Tr 0 True,
                        Tr 2 False, Tr 2 False, Tr 1 False, Tr 1 False,
                        Tr 0 True, Tr 1 False, Tr 2 False, Tr 3 False,
                        Tr 0 True, Tr 0 True, Tr 3 False, Tr 3 False]\<rparr>,
      identity_state_index = 2,
      final_states = [Some 7, Some 7, None, None]\<rparr>"

lemma ctor_swap: "ParallelLexer_ctor c_small dfa_swap = Some (Inr lexer_swap)"
  by code_simp

text \<open>The same automaton with a lexeme produced on every transition.\<close>

definition dfa_flip :: "nat FiniteStateAutomaton" where
  "dfa_flip = [\<lparr>transitions = [(Some 0, 2, True), (Some 1, 2, True)], lexeme = None\<rparr>,
               \<lparr>transitions = [], lexeme = None\<rparr>,
               \<lparr>transitions = [(Some 0, 0, True), (Some 1, 0, True)], lexeme = Some 7\<rparr>]"

definition lexer_flip :: "nat ParallelLexer" where
  "lexer_flip =
     \<lparr>seen = [([Tr 2 True, Tr 1 False, Tr 0 True], 0),
             ([Tr 0 False, Tr 1 False, Tr 2 False], 1),
             ([Tr 0 True, Tr 1 False, Tr 2 True], 2)],
      states = [[Tr 2 True, Tr 1 False, Tr 0 True],
                [Tr 0 False, Tr 1 False, Tr 2 False],
                [Tr 0 True, Tr 1 False, Tr 2 True]],
      initial_states = [Tr 0 True, Tr 0 True],
      lexer_merge_table =
        \<lparr>num_states = 3, capacity = 4,
         merge_table = [Tr 2 True, Tr 0 True, Tr 0 True, Tr 1 False,
                        Tr 0 True, Tr 1 False, Tr 2 True, Tr 1 False,
                        Tr 0 True, Tr 2 True, Tr 2 True, Tr 1 False,
                        Tr 1 False, Tr 1 False, Tr 1 False, Tr 1 False]\<rparr>,
      identity_state_index = 1,
      final_states = [Some 7, None, None]\<rparr>"

lemma ctor_flip: "ParallelLexer_ctor c_small dfa_flip = Some (Inr lexer_flip)"
  by code_simp

text \<open>
  The two-character token: state 0 moves to state 2 on symbol 0, state 2 to state 3 on
  symbol 1, and state 3 carries the lexeme.
\<close>

definition dfa_ab :: "nat FiniteStateAutomaton" where
  "dfa_ab = [\<lparr>transitions = [(Some 0, 2, False)], lexeme = None\<rparr>,
             \<lparr>transitions = [], lexeme = None\<rparr>,
             \<lparr>transitions = [(Some 1, 3, False)], lexeme = None\<rparr>,
             \<lparr>transitions = [(Some 0, 2, True)], lexeme = Some 7\<rparr>]"

text \<open>
  The trivial accept: two states, the start state and a state with a lexeme, and one
  transition between them on symbol 0. \<open>REJECT = 2\<close> is the sentinel of the data model,
  no state of the automaton.
\<close>

definition c_sentinel :: constants where
  "c_sentinel = \<lparr>START = 0, REJECT = 2, MAX_SYM = 1, MIN_SIZE = 2, GROW_FACTOR = 2\<rparr>"

definition dfa_accept :: "nat FiniteStateAutomaton" where
  "dfa_accept = [\<lparr>transitions = [(Some 0, 1, True)], lexeme = None\<rparr>,
                 \<lparr>transitions = [], lexeme = Some 7\<rparr>]"

text \<open>
  The same two states with a transition from each of them on each of the two symbols.
\<close>

definition dfa_total :: "nat FiniteStateAutomaton" where
  "dfa_total = [\<lparr>transitions = [(Some 0, 1, True), (Some 1, 0, False)], lexeme = None\<rparr>,
                \<lparr>transitions = [(Some 0, 1, False), (Some 1, 0, False)], lexeme = Some 7\<rparr>]"

text \<open>
  Two states with \<open>REJECT = 1\<close> among them, and a lexeme attached to the state at index
  \<open>REJECT\<close>; the start state loops on symbol 0 and has no transition on symbol 1.
\<close>

definition dfa_live :: "nat FiniteStateAutomaton" where
  "dfa_live = [\<lparr>transitions = [(Some 0, 0, False)], lexeme = None\<rparr>,
               \<lparr>transitions = [], lexeme = Some 6\<rparr>]"

definition lexer_live :: "nat ParallelLexer" where
  "lexer_live =
     \<lparr>seen = [([Tr 0 False, Tr 1 False], 0), ([Tr 1 False, Tr 1 False], 1)],
      states = [[Tr 0 False, Tr 1 False], [Tr 1 False, Tr 1 False]],
      initial_states = [Tr 0 False, Tr 1 False],
      lexer_merge_table =
        \<lparr>num_states = 2, capacity = 2,
         merge_table = [Tr 0 False, Tr 1 False, Tr 1 False, Tr 1 False]\<rparr>,
      identity_state_index = 0,
      final_states = [None, Some 6]\<rparr>"

section \<open>The claims on the concrete automata\<close>

theorem scan_recognizes_witness:
  "deterministic dfa_ab \<and> reject_dead c_small dfa_ab
   \<and> wf_dfa c_small dfa_ab \<and> growable c_small
   \<and> 0 \<le> MAX_SYM c_small \<and> 1 \<le> MAX_SYM c_small
   \<and> (\<exists>b r. ParallelLexer_ctor c_small dfa_ab = Some (Inr b)
          \<and> scan_fold b [0, 1] = Inr r \<and> r < length (final_states b)
          \<and> final_states b ! r = recognized c_small dfa_ab [0, 1])
   \<and> recognized c_small dfa_ab [0, 1] = Some 7
   \<and> deterministic dfa_total \<and> reject_dead c_sentinel dfa_total
   \<and> wf_dfa c_sentinel dfa_total \<and> growable c_sentinel
   \<and> dfa_num_states dfa_total \<le> REJECT c_sentinel
   \<and> (\<exists>b r. ParallelLexer_ctor c_sentinel dfa_total = Some (Inr b)
          \<and> scan_fold b [1, 0] = Inr r \<and> r < length (final_states b)
          \<and> final_states b ! r = recognized c_sentinel dfa_total [1, 0])
   \<and> recognized c_sentinel dfa_total [1, 0] = Some 7"
proof -
  have det: "deterministic dfa_ab" by (simp add: deterministic_def dfa_ab_def)
  have dead: "reject_dead c_small dfa_ab"
    by (simp add: reject_dead_def dfa_ab_def c_small_def)
  have wf: "wf_dfa c_small dfa_ab"
    by (simp add: wf_dfa_def dfa_ab_def dfa_num_states_def c_small_def)
  have g: "growable c_small" by (simp add: growable_def c_small_def)
  have bytes: "\<forall>x\<in>set [0, 1]. x \<le> MAX_SYM c_small" by (simp add: c_small_def)
  have rec: "recognized c_small dfa_ab [0, 1] = Some 7" by code_simp
  note th = scan_recognizes [OF det dead bytes]
  from th wf g obtain b where ret: "ParallelLexer_ctor c_small dfa_ab = Some (Inr b)" by blast
  with th obtain r where
    "scan_fold b [0, 1] = Inr r" "r < length (final_states b)"
    "final_states b ! r = recognized c_small dfa_ab [0, 1]"
    by blast
  moreover have "0 \<le> MAX_SYM c_small" "1 \<le> MAX_SYM c_small" by (simp_all add: c_small_def)
  ultimately have first: "deterministic dfa_ab \<and> reject_dead c_small dfa_ab
   \<and> wf_dfa c_small dfa_ab \<and> growable c_small
   \<and> 0 \<le> MAX_SYM c_small \<and> 1 \<le> MAX_SYM c_small
   \<and> (\<exists>b r. ParallelLexer_ctor c_small dfa_ab = Some (Inr b)
          \<and> scan_fold b [0, 1] = Inr r \<and> r < length (final_states b)
          \<and> final_states b ! r = recognized c_small dfa_ab [0, 1])
   \<and> recognized c_small dfa_ab [0, 1] = Some 7"
    using ret det dead wf g rec by blast
  have det': "deterministic dfa_total" by (simp add: deterministic_def dfa_total_def)
  have n': "dfa_num_states dfa_total \<le> REJECT c_sentinel"
    by (simp add: dfa_num_states_def dfa_total_def c_sentinel_def)
  then have dead': "reject_dead c_sentinel dfa_total" by (simp add: reject_dead_def)
  have wf': "wf_dfa c_sentinel dfa_total"
    by (simp add: wf_dfa_def dfa_total_def dfa_num_states_def c_sentinel_def le_Suc_eq)
  have g': "growable c_sentinel" by (simp add: growable_def c_sentinel_def)
  have bytes': "\<forall>x\<in>set [1, 0]. x \<le> MAX_SYM c_sentinel" by (simp add: c_sentinel_def)
  have rec': "recognized c_sentinel dfa_total [1, 0] = Some 7" by code_simp
  note th' = scan_recognizes [OF det' dead' bytes']
  from th' wf' g' obtain b' where
    ret': "ParallelLexer_ctor c_sentinel dfa_total = Some (Inr b')" by blast
  with th' obtain r' where
    "scan_fold b' [1, 0] = Inr r'" "r' < length (final_states b')"
    "final_states b' ! r' = recognized c_sentinel dfa_total [1, 0]"
    by blast
  with ret' have "\<exists>b r. ParallelLexer_ctor c_sentinel dfa_total = Some (Inr b)
          \<and> scan_fold b [1, 0] = Inr r \<and> r < length (final_states b)
          \<and> final_states b ! r = recognized c_sentinel dfa_total [1, 0]"
    by blast
  with first det' dead' wf' g' n' rec' show ?thesis by blast
qed

text \<open>
  Claim C1 as stated, for every deterministic automaton, fails in two ways. With the
  sentinel \<open>REJECT\<close> of the data model and a state that has no transition on some symbol
  (here the trivial accept), the sequential automaton recognizes the lexeme after symbol
  0, but the constructor returns no artifact: the saturation loop merges the initial
  state of symbol 0 with itself and reads the slot \<open>REJECT\<close>, out of range. With
  \<open>REJECT\<close> an index of the automaton, the constructor treats the state stored there as
  any other: on \<open>dfa_live\<close> the fold over the dead symbol 1 yields index 1, where
  \<open>final_states\<close> holds the lexeme of \<open>dfa[REJECT]\<close>, while the sequential automaton has
  moved to \<open>REJECT\<close> and recognizes nothing.
\<close>

theorem scan_recognizes_counterexample:
  "deterministic dfa_accept
   \<and> dfa_num_states dfa_accept = 2 \<and> REJECT c_sentinel = 2
   \<and> recognized c_sentinel dfa_accept [0] = Some 7
   \<and> ParallelLexer_ctor c_sentinel dfa_accept = Some (Inl OutOfBounds)
   \<and> deterministic dfa_live
   \<and> ParallelLexer_ctor c_small dfa_live = Some (Inr lexer_live)
   \<and> scan_fold lexer_live [1] = Inr 1
   \<and> final_states lexer_live ! 1 = Some 6
   \<and> recognized c_small dfa_live [1] = None"
  by code_simp

theorem merge_table_closed_witness:
  "ParallelLexer_ctor c_small dfa_swap = Some (Inr lexer_swap)
   \<and> 0 < length (states lexer_swap) \<and> 1 < length (states lexer_swap)
   \<and> 1 \<noteq> identity_state_index lexer_swap
   \<and> mt_states (lexer_merge_table lexer_swap) = length (states lexer_swap)
   \<and> (\<exists>t. mt_get (lexer_merge_table lexer_swap) 0 1 = Inr t
          \<and> result_state t < length (states lexer_swap)
          \<and> ParallelState_merge (states lexer_swap ! 0) (states lexer_swap ! 1)
              = Inr (states lexer_swap ! result_state t))"
proof -
  have h: "0 < length (states lexer_swap)" "1 < length (states lexer_swap)"
    by (simp_all add: lexer_swap_def)
  have nj: "1 \<noteq> identity_state_index lexer_swap" by (simp add: lexer_swap_def)
  from merge_table_closed [OF ctor_swap h] nj ctor_swap h show ?thesis by blast
qed

text \<open>
  Claim C2 as stated fails where the right operand is the identity. On \<open>dfa_flip\<close> the
  constructor interns three states, the identity at index 1. The cell \<open>(0, 1)\<close> holds
  index 0, by the shortcut; \<open>states[0]\<close> merged with the identity is \<open>states[0]\<close> with its
  flags cleared, which is not \<open>states[0]\<close> and is not interned at all.
\<close>

theorem merge_table_closed_counterexample:
  "ParallelLexer_ctor c_small dfa_flip = Some (Inr lexer_flip)
   \<and> identity_state_index lexer_flip = 1
   \<and> mt_get (lexer_merge_table lexer_flip) 0 1 = Inr (Tr 0 True)
   \<and> ParallelState_merge (states lexer_flip ! 0) (states lexer_flip ! 1)
       = Inr [Tr 2 False, Tr 1 False, Tr 0 False]
   \<and> states lexer_flip ! 0 \<noteq> [Tr 2 False, Tr 1 False, Tr 0 False]
   \<and> [Tr 2 False, Tr 1 False, Tr 0 False] \<notin> set (states lexer_flip)"
  by code_simp

theorem identity_unit_witness:
  "ParallelLexer_ctor c_small dfa_swap = Some (Inr lexer_swap)
   \<and> 0 < length (states lexer_swap)
   \<and> (\<exists>t. mt_get (lexer_merge_table lexer_swap) (identity_state_index lexer_swap) 0 = Inr t
          \<and> result_state t = 0)
   \<and> (\<exists>t. mt_get (lexer_merge_table lexer_swap) 0 (identity_state_index lexer_swap) = Inr t
          \<and> result_state t = 0)
   \<and> 2 < dfa_num_states dfa_swap
   \<and> states lexer_swap ! identity_state_index lexer_swap ! 2 = Tr 2 False"
proof -
  have h: "0 < length (states lexer_swap)" by (simp add: lexer_swap_def)
  have n: "2 < dfa_num_states dfa_swap" by (simp add: dfa_num_states_def dfa_swap_def)
  from identity_unit [OF ctor_swap h] n ctor_swap h show ?thesis by blast
qed

theorem merge_table_assoc_witness:
  "ParallelLexer_ctor c_small dfa_swap = Some (Inr lexer_swap)
   \<and> 0 < length (states lexer_swap)
   \<and> (\<exists>tij tjk tl tr.
           mt_get (lexer_merge_table lexer_swap) 0 0 = Inr tij
         \<and> mt_get (lexer_merge_table lexer_swap) 0 0 = Inr tjk
         \<and> mt_get (lexer_merge_table lexer_swap) (result_state tij) 0 = Inr tl
         \<and> mt_get (lexer_merge_table lexer_swap) 0 (result_state tjk) = Inr tr
         \<and> result_state tjk \<noteq> identity_state_index lexer_swap
         \<and> result_state tl = result_state tr)"
proof -
  have h: "0 < length (states lexer_swap)" by (simp add: lexer_swap_def)
  have c: "mt_get (lexer_merge_table lexer_swap) 0 0 = Inr (Tr 3 False)" by code_simp
  have id: "identity_state_index lexer_swap = 2" by (simp add: lexer_swap_def)
  from merge_table_assoc [OF ctor_swap h h h] obtain tij tjk tl tr where
    a: "mt_get (lexer_merge_table lexer_swap) 0 0 = Inr tij"
    "mt_get (lexer_merge_table lexer_swap) 0 0 = Inr tjk"
    "mt_get (lexer_merge_table lexer_swap) (result_state tij) 0 = Inr tl"
    "mt_get (lexer_merge_table lexer_swap) 0 (result_state tjk) = Inr tr"
    and law: "result_state tl = result_state tr \<longleftrightarrow>
              \<not> (0 \<noteq> identity_state_index lexer_swap \<and> 0 \<noteq> identity_state_index lexer_swap
                 \<and> result_state tjk = identity_state_index lexer_swap
                 \<and> (\<exists>s<dfa_num_states dfa_swap. produces_lexeme (states lexer_swap ! 0 ! s)))"
    by blast
  from a(2) c have "tjk = Tr 3 False" by simp
  then have "result_state tjk = 3" by simp
  then have ne: "result_state tjk \<noteq> identity_state_index lexer_swap" by (simp add: id)
  with law have "result_state tl = result_state tr" by blast
  with a ne ctor_swap h show ?thesis by blast
qed

text \<open>
  Claim C5 as stated fails where two operands, neither of them the identity, compose to
  the identity. On \<open>dfa_swap\<close> the identity is at index 2 and, for
  \<open>(i, j, k) = (0, 1, 1)\<close>: \<open>merge_table[0, 1]\<close> holds 2 and \<open>merge_table[2, 1]\<close> holds 1,
  while \<open>merge_table[1, 1]\<close> holds 2 and \<open>merge_table[0, 2]\<close> holds 0.
\<close>

theorem merge_table_assoc_counterexample:
  "ParallelLexer_ctor c_small dfa_swap = Some (Inr lexer_swap)
   \<and> 0 < length (states lexer_swap) \<and> 1 < length (states lexer_swap)
   \<and> mt_get (lexer_merge_table lexer_swap) 0 1 = Inr (Tr 2 False)
   \<and> mt_get (lexer_merge_table lexer_swap) 2 1 = Inr (Tr 1 False)
   \<and> mt_get (lexer_merge_table lexer_swap) 1 1 = Inr (Tr 2 False)
   \<and> mt_get (lexer_merge_table lexer_swap) 0 2 = Inr (Tr 0 True)
   \<and> result_state (Tr 1 False) \<noteq> result_state (Tr 0 True)"
  by code_simp

theorem produces_lexeme_consistent_witness:
  "ParallelLexer_ctor c_small dfa_swap = Some (Inr lexer_swap)
   \<and> 2 < length (states lexer_swap) \<and> 0 < length (states lexer_swap)
   \<and> 2 = identity_state_index lexer_swap \<and> 0 \<noteq> identity_state_index lexer_swap
   \<and> (\<exists>t. mt_get (lexer_merge_table lexer_swap) 2 0 = Inr t
          \<and> produces_lexeme t
              = produces_lexeme (states lexer_swap ! result_state t ! START c_small)
          \<and> produces_lexeme t = produces_lexeme (states lexer_swap ! 0 ! START c_small))"
proof -
  have h: "2 < length (states lexer_swap)" "0 < length (states lexer_swap)"
    by (simp_all add: lexer_swap_def)
  have id: "2 = identity_state_index lexer_swap" "0 \<noteq> identity_state_index lexer_swap"
    by (simp_all add: lexer_swap_def)
  from produces_lexeme_consistent [OF ctor_swap h] id ctor_swap h show ?thesis by blast
qed

theorem final_states_spec_witness:
  "ParallelLexer_ctor c_small dfa_swap = Some (Inr lexer_swap)
   \<and> length (final_states lexer_swap) = length (states lexer_swap)
   \<and> length (seen lexer_swap) = length (states lexer_swap)
   \<and> 0 < length (states lexer_swap)
   \<and> result_state (states lexer_swap ! 0 ! START c_small) < dfa_num_states dfa_swap
   \<and> final_states lexer_swap ! 0
       = lexeme (dfa_swap ! result_state (states lexer_swap ! 0 ! START c_small))
   \<and> final_states lexer_swap ! 0 = Some 7"
proof -
  have h: "0 < length (states lexer_swap)" by (simp add: lexer_swap_def)
  have v: "final_states lexer_swap ! 0 = Some 7" by (simp add: lexer_swap_def)
  from final_states_spec [OF ctor_swap] h v ctor_swap show ?thesis by blast
qed

end
